theory Spec2Isabelle
  imports Main
begin

section \<open>Live update channel: the hook \<open>useLocalMediaManager\<close>\<close>

text \<open>
  The hook of \<^verbatim>\<open>client/src/hooks/useLocalMediaManager.js\<close> keeps five pieces of React
  state (\<open>allMedia\<close>, \<open>currentIndex\<close>, \<open>loading\<close>, \<open>webSocketStatus\<close>, \<open>serverReady\<close>)
  and three refs (\<open>wsRef\<close>, \<open>reconnectTimerRef\<close>, \<open>reconnectAttemptsRef\<close>). They are the
  fields of the record \<open>channel\<close>. The browser's table of pending timeouts, which
  \<^verbatim>\<open>setTimeout\<close> and \<^verbatim>\<open>clearTimeout\<close> act on, is made explicit in the fields
  \<open>timers\<close> and \<open>next_timer\<close>. The field \<open>renderedLength\<close> is the value \<^verbatim>\<open>allMedia.length\<close>
  had at the last render: the callbacks the hook handed out at that render read it
  from their closure. JavaScript numbers that hold an index are \<open>int\<close>. Console output
  and the keep-alive ping are not part of the model.
\<close>

record MediaItem =
  media_id :: string
  media_path :: string
  media_type :: string

datatype connection_state = Connected | Connecting | Disconnected | ErrorStatus

datatype ready_state = CONNECTING | OPEN | CLOSING | CLOSED

text \<open>
  The values the hook reads from outside: its argument \<open>isScheduleActive\<close> and the two
  constants taken from \<^verbatim>\<open>frontendConfig.websocket\<close>.
\<close>

record channel_config =
  isScheduleActive :: bool
  MAX_RECONNECT_ATTEMPTS :: nat
  RECONNECT_INTERVAL :: nat

record channel =
  allMedia :: "MediaItem list"
  currentIndex :: int
  loading :: bool
  webSocketStatus :: connection_state
  serverReady :: bool
  wsRef :: "ready_state option"
  reconnectTimerRef :: "nat option"
  reconnectAttemptsRef :: nat
  timers :: "(nat \<times> nat) list"
  next_timer :: nat
  renderedLength :: nat

text \<open>The state of the hook at its first render.\<close>

definition initial_channel :: channel where
  "initial_channel =
     \<lparr>allMedia = [], currentIndex = 0, loading = True, webSocketStatus = Disconnected,
      serverReady = False, wsRef = None, reconnectTimerRef = None,
      reconnectAttemptsRef = 0, timers = [], next_timer = 1, renderedLength = 0\<rparr>"

text \<open>
  JavaScript's \<^verbatim>\<open>%\<close> on integers: the remainder of the truncating division, with the
  sign of the dividend.
\<close>

definition js_rem :: "int \<Rightarrow> int \<Rightarrow> int" where
  "js_rem a b = sgn a * (\<bar>a\<bar> mod \<bar>b\<bar>)"

text \<open>
  A parsed inbound frame: its \<open>type\<close> and its \<open>media\<close> array. The handler receives
  \<open>None\<close> when \<^verbatim>\<open>JSON.parse\<close> throws; the exception is caught and only logged.
\<close>

record ws_message =
  msg_type :: string
  media :: "MediaItem list"

definition onmessage :: "channel \<Rightarrow> ws_message option \<Rightarrow> channel" where
  "onmessage s event =
     (case event of
        None \<Rightarrow> s
      | Some data \<Rightarrow>
          if msg_type data = ''mediaList'' \<or> msg_type data = ''mediaUpdate'' then
            s\<lparr>allMedia := media data,
              currentIndex :=
                (if currentIndex s \<ge> int (length (media data)) then 0 else currentIndex s),
              loading := False\<rparr>
          else s)"

definition navigateMedia :: "channel \<Rightarrow> string \<Rightarrow> channel" where
  "navigateMedia s direction =
     (if length (allMedia s) = 0 then s
      else s\<lparr>currentIndex :=
        (if direction = ''next'' then
           js_rem (currentIndex s + 1) (int (length (allMedia s)))
         else if direction = ''previous'' then
           js_rem (currentIndex s - 1 + int (length (allMedia s))) (int (length (allMedia s)))
         else currentIndex s)\<rparr>)"

text \<open>
  \<open>navigateMedia\<close> above is the callback of a render that has seen the current list.
  \<^verbatim>\<open>useCallback\<close> makes a new callback only when a render finds \<^verbatim>\<open>allMedia.length\<close>
  changed, and a state update is rendered some time after the handler that made it.
  Until then the user interface holds the callback of the last render, which tests
  and wraps with the length of that render, while the updater it passes to
  \<^verbatim>\<open>setCurrentIndex\<close> receives the index as it stands. \<open>navigateMedia_rendered\<close> is that
  callback.
\<close>

definition navigateMedia_rendered :: "channel \<Rightarrow> string \<Rightarrow> channel" where
  "navigateMedia_rendered s direction =
     (if renderedLength s = 0 then s
      else s\<lparr>currentIndex :=
        (if direction = ''next'' then
           js_rem (currentIndex s + 1) (int (renderedLength s))
         else if direction = ''previous'' then
           js_rem (currentIndex s - 1 + int (renderedLength s)) (int (renderedLength s))
         else currentIndex s)\<rparr>)"

text \<open>The item the hook exposes: \<^verbatim>\<open>allMedia[currentIndex] || null\<close>.\<close>

definition getCurrentMedia :: "channel \<Rightarrow> MediaItem option" where
  "getCurrentMedia s =
     (if 0 \<le> currentIndex s \<and> currentIndex s < int (length (allMedia s))
      then Some (allMedia s ! nat (currentIndex s)) else None)"

text \<open>
  \<^verbatim>\<open>setTimeout\<close> enters a new pending timeout under a fresh handle (handles are
  positive, so a stored handle is truthy); \<^verbatim>\<open>clearTimeout\<close> removes it.
\<close>

definition setTimeout :: "nat \<Rightarrow> channel \<Rightarrow> channel" where
  "setTimeout delay s =
     s\<lparr>reconnectTimerRef := Some (next_timer s),
       timers := timers s @ [(next_timer s, delay)],
       next_timer := next_timer s + 1\<rparr>"

definition clearTimeout :: "nat \<Rightarrow> channel \<Rightarrow> channel" where
  "clearTimeout h s = s\<lparr>timers := filter (\<lambda>t. fst t \<noteq> h) (timers s)\<rparr>"

text \<open>
  \<open>connect\<close>, with the value of \<open>isServerConnected\<close> its closure captured. Closing the
  stale socket and creating the new one leave a socket in state \<open>CONNECTING\<close> in \<open>wsRef\<close>.
\<close>

definition connect :: "channel_config \<Rightarrow> bool \<Rightarrow> channel \<Rightarrow> channel" where
  "connect cfg isServerConnected s =
     (if \<not> isScheduleActive cfg \<or> \<not> isServerConnected \<or> wsRef s = Some OPEN then s
      else s\<lparr>wsRef := Some CONNECTING, webSocketStatus := Connecting\<rparr>)"

definition onopen :: "channel \<Rightarrow> channel" where
  "onopen s =
     (let s1 = s\<lparr>webSocketStatus := Connected, serverReady := True,
                  reconnectAttemptsRef := 0\<rparr>
      in case reconnectTimerRef s1 of
           None \<Rightarrow> s1
         | Some h \<Rightarrow> (clearTimeout h s1)\<lparr>reconnectTimerRef := None\<rparr>)"

definition onerror :: "channel \<Rightarrow> channel" where
  "onerror s = s\<lparr>webSocketStatus := ErrorStatus\<rparr>"

definition onclose :: "channel_config \<Rightarrow> channel \<Rightarrow> channel" where
  "onclose cfg s =
     (let s1 = s\<lparr>webSocketStatus := Disconnected, wsRef := None\<rparr>
      in if isScheduleActive cfg \<and> reconnectAttemptsRef s1 < MAX_RECONNECT_ATTEMPTS cfg then
           setTimeout (RECONNECT_INTERVAL cfg)
             (s1\<lparr>reconnectAttemptsRef := reconnectAttemptsRef s1 + 1\<rparr>)
         else s1)"

text \<open>The body of the effect and its cleanup function.\<close>

definition effect_run :: "channel_config \<Rightarrow> bool \<Rightarrow> channel \<Rightarrow> channel" where
  "effect_run cfg isServerConnected s =
     (if isScheduleActive cfg \<and> isServerConnected then connect cfg isServerConnected s
      else s\<lparr>wsRef := None\<rparr>)"

definition effect_cleanup :: "channel \<Rightarrow> channel" where
  "effect_cleanup s =
     (let s1 = (case reconnectTimerRef s of None \<Rightarrow> s | Some h \<Rightarrow> clearTimeout h s)
      in s1\<lparr>wsRef := None\<rparr>)"

text \<open>The object the hook returns, without the function \<open>navigateMedia\<close>.\<close>

record MediaManagerResult =
  res_media :: "MediaItem option"
  res_loading :: bool
  res_serverReady :: bool
  res_webSocketStatus :: connection_state
  res_totalMedia :: nat

definition useLocalMediaManager_result :: "channel \<Rightarrow> MediaManagerResult" where
  "useLocalMediaManager_result s =
     \<lparr>res_media = getCurrentMedia s,
      res_loading = loading s,
      res_serverReady = (serverReady s \<or> length (allMedia s) > 0),
      res_webSocketStatus = webSocketStatus s,
      res_totalMedia = length (allMedia s)\<rparr>"

subsection \<open>Runs of the channel\<close>

text \<open>
  What can happen to a mounted hook: a socket it created fires \<open>open\<close>, \<open>message\<close>,
  \<open>error\<close> or \<open>close\<close>; a pending reconnect timeout fires and calls \<open>connect\<close>; the user
  interface calls the \<open>navigateMedia\<close> it was handed at the last render; React renders
  the component again, or runs the effect or its cleanup. An \<open>open\<close> event is that of
  the socket in \<open>wsRef\<close>, whose ready state the browser has advanced before the handler
  runs. A timeout that was cleared does not fire.
\<close>

datatype channel_event =
    WsOpen
  | WsMessage "ws_message option"
  | WsError
  | WsClose
  | ReconnectTimer nat bool
  | Navigate string
  | Render
  | EffectRun bool
  | EffectCleanup

definition channel_step :: "channel_config \<Rightarrow> channel \<Rightarrow> channel_event \<Rightarrow> channel" where
  "channel_step cfg s e =
     (case e of
        WsOpen \<Rightarrow> onopen (s\<lparr>wsRef := map_option (\<lambda>_. OPEN) (wsRef s)\<rparr>)
      | WsMessage m \<Rightarrow> onmessage s m
      | WsError \<Rightarrow> onerror s
      | WsClose \<Rightarrow> onclose cfg s
      | ReconnectTimer h isServerConnected \<Rightarrow>
          (if h \<in> fst ` set (timers s)
           then connect cfg isServerConnected (clearTimeout h s) else s)
      | Navigate direction \<Rightarrow> navigateMedia_rendered s direction
      | Render \<Rightarrow> s\<lparr>renderedLength := length (allMedia s)\<rparr>
      | EffectRun isServerConnected \<Rightarrow> effect_run cfg isServerConnected s
      | EffectCleanup \<Rightarrow> effect_cleanup s)"

definition run_channel :: "channel_config \<Rightarrow> channel_event list \<Rightarrow> channel \<Rightarrow> channel" where
  "run_channel cfg es s = foldl (channel_step cfg) s es"

text \<open>
  The reading of the words "has ever connected with data" of the specification: at
  some moment a connection opened and a playlist message arrived afterwards.
\<close>

fun is_data_message :: "channel_event \<Rightarrow> bool" where
  "is_data_message (WsMessage (Some d)) =
     (msg_type d = ''mediaList'' \<or> msg_type d = ''mediaUpdate'')"
| "is_data_message _ = False"

fun connected_with_data :: "channel_event list \<Rightarrow> bool" where
  "connected_with_data [] = False"
| "connected_with_data (e # es) =
     ((e = WsOpen \<and> (\<exists>m \<in> set es. is_data_message m)) \<or> connected_with_data es)"

text \<open>
  A socket delivers \<open>message\<close> events only once it has opened. The flag says whether
  an \<open>open\<close> has been seen before the list starts.
\<close>

fun messages_after_open :: "bool \<Rightarrow> channel_event list \<Rightarrow> bool" where
  "messages_after_open opened [] = True"
| "messages_after_open opened (WsOpen # es) = messages_after_open True es"
| "messages_after_open opened (WsMessage m # es) = (opened \<and> messages_after_open opened es)"
| "messages_after_open opened (e # es) = messages_after_open opened es"

section \<open>Folder mirror job: the class \<open>GoogleDriveService\<close>\<close>

text \<open>
  The service lists a folder tree of the remote drive, downloads the valid files the
  local directory lacks and removes the local files the drive no longer has. The
  drive, the local file system and the network are outside the class: their answers
  are the fields of an environment, and every request the class makes is recorded
  as an effect, together with the log lines and the waits.
\<close>

record RemoteFileRecord =
  file_id :: string
  file_name :: string
  mimeType :: string
  parents :: "string list"

datatype error = Error string

text \<open>
  The answer of \<^verbatim>\<open>drive.files.list\<close> to the query for the children of a folder: the
  array \<^verbatim>\<open>response.data.files\<close>, or the error the call throws.
\<close>

type_synonym drive = "string \<Rightarrow> error + RemoteFileRecord list"

subsection \<open>Listing the folder tree\<close>

text \<open>
  \<open>fetchFilesFromDrive\<close> iterates over the array \<open>files\<close> while it appends the results
  of the recursive calls to that same array; the iterator of \<^verbatim>\<open>for ... of\<close> reads the
  length anew at each step, so the appended entries are visited too. \<open>fetch_loop\<close> is
  that loop, with the position \<open>i\<close> of the iterator. Nothing in the code bounds the
  recursion, so both functions take fuel, and \<open>None\<close> stands for a call that does not
  return. The \<^verbatim>\<open>catch\<close> block logs and rethrows, which leaves the error as it is.
\<close>

fun fetchFilesFromDrive ::
    "nat \<Rightarrow> drive \<Rightarrow> string \<Rightarrow> (error + RemoteFileRecord list) option"
  and fetch_loop ::
    "nat \<Rightarrow> drive \<Rightarrow> nat \<Rightarrow> RemoteFileRecord list \<Rightarrow> (error + RemoteFileRecord list) option"
where
  "fetchFilesFromDrive 0 d folderId = None"
| "fetchFilesFromDrive (Suc n) d folderId =
     (case d folderId of
        Inl e \<Rightarrow> Some (Inl e)
      | Inr files \<Rightarrow> fetch_loop n d 0 files)"
| "fetch_loop 0 d i files = None"
| "fetch_loop (Suc n) d i files =
     (if i < length files then
        (if mimeType (files ! i) = ''application/vnd.google-apps.folder'' then
           (case fetchFilesFromDrive n d (file_id (files ! i)) of
              None \<Rightarrow> None
            | Some (Inl e) \<Rightarrow> Some (Inl e)
            | Some (Inr subfolderFiles) \<Rightarrow> fetch_loop n d (Suc i) (files @ subfolderFiles))
         else fetch_loop n d (Suc i) files)
      else Some (Inr files))"

text \<open>
  \<open>listFiles\<close> keeps the entries whose name passes \<open>isValidFile\<close>, a function of
  \<^verbatim>\<open>utils/fileValidator.js\<close> that is taken as a parameter.
\<close>

definition listFiles ::
    "nat \<Rightarrow> (string \<Rightarrow> bool) \<Rightarrow> drive \<Rightarrow> string \<Rightarrow> (error + RemoteFileRecord list) option"
where
  "listFiles n isValidFile d folderId =
     (case fetchFilesFromDrive n d folderId of
        None \<Rightarrow> None
      | Some (Inl e) \<Rightarrow> Some (Inl e)
      | Some (Inr files) \<Rightarrow> Some (Inr (filter (\<lambda>file. isValidFile (file_name file)) files)))"

text \<open>
  A file lies below a folder through a chain of nested folders: each folder of the
  chain is listed in the one before it, and the file is listed in the last one.
\<close>

fun nested_in :: "drive \<Rightarrow> string \<Rightarrow> RemoteFileRecord list \<Rightarrow> RemoteFileRecord \<Rightarrow> bool" where
  "nested_in d folderId [] f =
     (case d folderId of Inl e \<Rightarrow> False | Inr files \<Rightarrow> f \<in> set files)"
| "nested_in d folderId (sub # subs) f =
     (case d folderId of
        Inl e \<Rightarrow> False
      | Inr files \<Rightarrow>
          sub \<in> set files \<and> mimeType sub = ''application/vnd.google-apps.folder'' \<and>
          nested_in d (file_id sub) subs f)"

text \<open>
  A drive whose listings all succeed and whose folders form a forest of finite depth:
  each listed folder has a smaller rank than the folder it is listed in.
\<close>

definition ranked_drive :: "drive \<Rightarrow> (string \<Rightarrow> nat) \<Rightarrow> bool" where
  "ranked_drive d rank =
     ((\<forall>p. \<exists>files. d p = Inr files) \<and>
      (\<forall>p files x. d p = Inr files \<longrightarrow> x \<in> set files \<longrightarrow>
         mimeType x = ''application/vnd.google-apps.folder'' \<longrightarrow> rank (file_id x) < rank p))"

subsection \<open>Downloading one file\<close>

text \<open>
  \<open>downloadFile\<close> awaits \<^verbatim>\<open>drive.files.get\<close>, pipes the response stream into a write
  stream and returns a promise with two listeners, both on the write stream:
  \<open>finish\<close> resolves it and \<open>error\<close> rejects it. The run of a download is what
  happens outside the function: whether \<open>get\<close> throws, which of these events the two
  streams then emit, in order, and whether the write stream created the file.
\<close>

datatype stream_event = DestFinish | DestError error | SourceError error

datatype promise = Pending | Resolved | Rejected error

record download_run =
  get_result :: "error option"
  stream_events :: "stream_event list"
  file_created :: bool

fun settle :: "promise \<Rightarrow> stream_event \<Rightarrow> promise" where
  "settle Pending DestFinish = Resolved"
| "settle Pending (DestError e) = Rejected e"
| "settle Pending (SourceError e) = Pending"
| "settle Resolved ev = Resolved"
| "settle (Rejected e) ev = Rejected e"

definition downloadFile :: "download_run \<Rightarrow> promise" where
  "downloadFile r =
     (case get_result r of
        Some e \<Rightarrow> Rejected e
      | None \<Rightarrow> foldl settle Pending (stream_events r))"

subsection \<open>One reconciliation pass\<close>

datatype log_entry =
    Info_found nat
  | Info_downloaded string
  | Warn_download_failed string
  | Info_removed string
  | Warn_remove_failed string
  | Warn_attempt_failed nat
  | Error_max_retries
  | Error_sync_failed
  | Info_paused_not_starting
  | Info_pausing
  | Info_resuming

datatype effect =
    ListFiles
  | Readdir
  | Download string string
  | Remove string
  | Wait nat
  | Log log_entry

subsection \<open>The local file system\<close>

text \<open>
  A path is the list of the segments of a normalised absolute path string, cut at
  each \<^verbatim>\<open>/\<close>; a path string that ends in \<^verbatim>\<open>/\<close> has the empty string as its last segment.
  \<open>path_join\<close> is \<^verbatim>\<open>path.join(downloadPath, name)\<close> of Node on POSIX, for the absolute
  and normalised \<open>downloadPath\<close> the constructor computes: the name is cut at each \<^verbatim>\<open>/\<close>,
  empty segments and \<^verbatim>\<open>.\<close> vanish, \<^verbatim>\<open>..\<close> steps back to the parent, out of the download
  directory too, and a final \<^verbatim>\<open>/\<close> is kept unless the result is the root.
\<close>

type_synonym path = "string list"

fun segments :: "string \<Rightarrow> string list" where
  "segments [] = [[]]"
| "segments (c # cs) =
     (if c = CHR ''/'' then [] # segments cs
      else (case segments cs of [] \<Rightarrow> [[c]] | seg # segs \<Rightarrow> (c # seg) # segs))"

definition path_step :: "path \<Rightarrow> string \<Rightarrow> path" where
  "path_step p seg =
     (if seg = [] \<or> seg = ''.'' then p else if seg = ''..'' then butlast p else p @ [seg])"

definition path_join :: "path \<Rightarrow> string \<Rightarrow> path" where
  "path_join dir name =
     (if name \<noteq> [] \<and> last name = CHR ''/'' \<and> foldl path_step dir (segments name) \<noteq> []
      then foldl path_step dir (segments name) @ [[]]
      else foldl path_step dir (segments name))"

text \<open>
  The file system is the list of the paths that resolve in it: those of its files and
  of its directories, a directory resolving with and without a final \<^verbatim>\<open>/\<close>. Paths are
  told apart segment by segment, as a case-sensitive POSIX file system without links
  does. On it work \<^verbatim>\<open>fs.pathExists\<close>, the creation of a file by \<^verbatim>\<open>fs.createWriteStream\<close>,
  \<^verbatim>\<open>fs.remove\<close>, which removes a path with all that lies below it, and \<^verbatim>\<open>fs.readdir\<close>,
  which gives the names of the entries of a directory.
\<close>

type_synonym filesystem = "path list"

definition pathExists :: "filesystem \<Rightarrow> path \<Rightarrow> bool" where
  "pathExists fs p = (p \<in> set fs)"

definition create_file :: "path \<Rightarrow> filesystem \<Rightarrow> filesystem" where
  "create_file p fs = (if p \<in> set fs then fs else fs @ [p])"

definition remove_file :: "path \<Rightarrow> filesystem \<Rightarrow> filesystem" where
  "remove_file p fs = filter (\<lambda>q. take (length p) q \<noteq> p) fs"

definition readdir :: "filesystem \<Rightarrow> path \<Rightarrow> string list" where
  "readdir fs dir =
     remdups (map last (filter (\<lambda>q. q \<noteq> [] \<and> butlast q = dir \<and> last q \<noteq> []) fs))"


text \<open>
  Each function below takes the file system and returns the file system it leaves,
  together with the effects it has had, in the order of the program.
\<close>

definition after :: "effect list \<Rightarrow> filesystem \<times> effect list \<Rightarrow> filesystem \<times> effect list" where
  "after evs r = (fst r, evs @ snd r)"

text \<open>
  The environment of one call of \<open>syncFiles\<close>: the configuration, the fuel of the
  listing, and the answers of the outside, those of the drive being given for each
  value of the variable \<open>attempt\<close>, as is the error \<^verbatim>\<open>fs.readdir\<close> throws, if any.
\<close>

record env =
  isValidFile :: "string \<Rightarrow> bool"
  folderId :: string
  downloadPath :: path
  sync_interval :: nat
  fuel :: nat
  drive_at :: "nat \<Rightarrow> drive"
  readdir_at :: "nat \<Rightarrow> error option"
  download_of :: "RemoteFileRecord \<Rightarrow> download_run"
  remove_result :: "string \<Rightarrow> error option"

text \<open>
  The first loop of the \<^verbatim>\<open>try\<close> block. A rejected download is caught, logged and
  skipped; a download whose promise stays pending never lets the loop go on. A
  download that is rejected by the write stream may have left the file it created.
\<close>

fun download_loop ::
    "env \<Rightarrow> RemoteFileRecord list \<Rightarrow> filesystem \<Rightarrow> (filesystem \<times> effect list) option"
where
  "download_loop env [] fs = Some (fs, [])"
| "download_loop env (file # files) fs =
     (if pathExists fs (path_join (downloadPath env) (file_name file))
      then download_loop env files fs
      else
        (case downloadFile (download_of env file) of
           Pending \<Rightarrow> None
         | Resolved \<Rightarrow>
             map_option
               (after [Download (file_id file) (file_name file),
                       Log (Info_downloaded (file_name file))])
               (download_loop env files
                 (create_file (path_join (downloadPath env) (file_name file)) fs))
         | Rejected e \<Rightarrow>
             map_option
               (after [Download (file_id file) (file_name file),
                       Log (Warn_download_failed (file_name file))])
               (download_loop env files
                 (if get_result (download_of env file) = None \<and>
                     file_created (download_of env file)
                  then create_file (path_join (downloadPath env) (file_name file)) fs
                  else fs))))"

text \<open>
  The second loop, over the entries \<^verbatim>\<open>fs.readdir\<close> gave before the downloads: those
  that no listed file is named after are removed.
\<close>

fun remove_loop ::
    "env \<Rightarrow> RemoteFileRecord list \<Rightarrow> string list \<Rightarrow> filesystem \<Rightarrow> filesystem \<times> effect list"
where
  "remove_loop env files [] fs = (fs, [])"
| "remove_loop env files (localFile # localFiles) fs =
     (if \<not> list_ex (\<lambda>file. file_name file = localFile) files then
        (case remove_result env localFile of
           None \<Rightarrow>
             after [Remove localFile, Log (Info_removed localFile)]
               (remove_loop env files localFiles
                 (remove_file (path_join (downloadPath env) localFile) fs))
         | Some e \<Rightarrow>
             after [Remove localFile, Log (Warn_remove_failed localFile)]
               (remove_loop env files localFiles fs))
      else remove_loop env files localFiles fs)"

text \<open>
  The body of the \<^verbatim>\<open>try\<close> block, for one value of \<open>attempt\<close>: what it returns or
  throws, the file system it leaves and its effects.
\<close>

definition sync_attempt ::
    "env \<Rightarrow> nat \<Rightarrow> filesystem \<Rightarrow>
       ((error + RemoteFileRecord list) \<times> filesystem \<times> effect list) option"
where
  "sync_attempt env attempt local =
     (case listFiles (fuel env) (isValidFile env) (drive_at env attempt) (folderId env) of
        None \<Rightarrow> None
      | Some (Inl e) \<Rightarrow> Some (Inl e, local, [ListFiles])
      | Some (Inr files) \<Rightarrow>
          (case readdir_at env attempt of
             Some e \<Rightarrow>
               Some (Inl e, local, [ListFiles, Log (Info_found (length files)), Readdir])
           | None \<Rightarrow>
               (case download_loop env files local of
                  None \<Rightarrow> None
                | Some (local1, effs1) \<Rightarrow>
                    (case remove_loop env files (readdir local (downloadPath env)) local1 of
                       (local2, effs2) \<Rightarrow>
                         Some (Inr files, local2,
                               [ListFiles, Log (Info_found (length files)), Readdir]
                                 @ effs1 @ effs2)))))"

definition MAX_RETRIES :: nat where
  "MAX_RETRIES = 3"

text \<open>
  The \<^verbatim>\<open>while\<close> loop of \<open>syncFiles\<close>. Leaving the loop by its condition would return
  \<^verbatim>\<open>undefined\<close>, which is \<open>Inr None\<close>.
\<close>

function sync_retry ::
    "env \<Rightarrow> nat \<Rightarrow> filesystem \<Rightarrow>
       ((error + RemoteFileRecord list option) \<times> filesystem \<times> effect list) option"
where
  "sync_retry env attempt local =
     (if attempt < MAX_RETRIES then
        (case sync_attempt env attempt local of
           None \<Rightarrow> None
         | Some (Inr files, local', effs) \<Rightarrow> Some (Inr (Some files), local', effs)
         | Some (Inl e, local', effs) \<Rightarrow>
             (if attempt + 1 = MAX_RETRIES then
                Some (Inl e, local',
                      effs @ [Log (Warn_attempt_failed (attempt + 1)), Log Error_max_retries])
              else
                (case sync_retry env (attempt + 1) local' of
                   None \<Rightarrow> None
                 | Some (r, local'', effs') \<Rightarrow>
                     Some (r, local'',
                           effs @ [Log (Warn_attempt_failed (attempt + 1)),
                                   Wait (1000 * (attempt + 1))] @ effs'))))
      else Some (Inr None, local, []))"
  by pat_completeness auto
termination
  by (relation "measure (\<lambda>(env, attempt, local). MAX_RETRIES - attempt)") auto

declare sync_retry.simps [simp del]

definition syncFiles ::
    "env \<Rightarrow> filesystem \<Rightarrow>
       ((error + RemoteFileRecord list option) \<times> filesystem \<times> effect list) option"
where
  "syncFiles env local = sync_retry env 0 local"

subsection \<open>A pass in steps\<close>

text \<open>
  \<open>syncFiles\<close> is an asynchronous function: it runs until it awaits a promise and goes
  on when the promise settles, and other code of the service may run in between. A
  pass in flight is the promise it awaits together with its variables: \<open>attempt\<close>,
  \<open>files\<close>, \<open>localFiles\<close> and what is left of the list its current loop goes through.
  The constructors name the awaited call: the listing, \<^verbatim>\<open>fs.readdir\<close>, \<^verbatim>\<open>fs.pathExists\<close>,
  \<^verbatim>\<open>drive.files.get\<close> and then the promise on the write stream inside \<open>downloadFile\<close>,
  \<^verbatim>\<open>fs.remove\<close> and the timeout before a retry. A pass that is over has returned or has
  thrown.
\<close>

datatype pass =
    AwaitList nat
  | AwaitReaddir nat "RemoteFileRecord list"
  | AwaitExists nat "RemoteFileRecord list" "string list" "RemoteFileRecord list"
  | AwaitGet nat "RemoteFileRecord list" "string list" "RemoteFileRecord list"
  | AwaitStream nat "RemoteFileRecord list" "string list" "RemoteFileRecord list"
  | AwaitRemove nat "RemoteFileRecord list" "string list"
  | AwaitTimeout nat
  | Returned "RemoteFileRecord list option"
  | Threw error

text \<open>
  The code that runs between two awaits: the test of the \<^verbatim>\<open>while\<close> loop, the search of
  the second loop for the next entry no listed file is named after, the step of the
  first loop to its next file, and the \<^verbatim>\<open>catch\<close> block of the retry loop.
\<close>

definition enter_loop :: "nat \<Rightarrow> pass" where
  "enter_loop attempt = (if attempt < MAX_RETRIES then AwaitList attempt else Returned None)"

definition next_removal :: "nat \<Rightarrow> RemoteFileRecord list \<Rightarrow> string list \<Rightarrow> pass" where
  "next_removal attempt files localFiles =
     (case dropWhile (\<lambda>localFile. list_ex (\<lambda>file. file_name file = localFile) files) localFiles of
        [] \<Rightarrow> Returned (Some files)
      | localFile # rest \<Rightarrow> AwaitRemove attempt files (localFile # rest))"

definition next_download ::
    "nat \<Rightarrow> RemoteFileRecord list \<Rightarrow> string list \<Rightarrow> RemoteFileRecord list \<Rightarrow> pass"
where
  "next_download attempt files localFiles rest =
     (case rest of
        [] \<Rightarrow> next_removal attempt files localFiles
      | file # others \<Rightarrow> AwaitExists attempt files localFiles rest)"

definition catch_error :: "nat \<Rightarrow> error \<Rightarrow> pass \<times> effect list" where
  "catch_error attempt e =
     (if attempt + 1 = MAX_RETRIES then
        (Threw e, [Log (Warn_attempt_failed (attempt + 1)), Log Error_max_retries])
      else
        (AwaitTimeout (attempt + 1),
         [Log (Warn_attempt_failed (attempt + 1)), Wait (1000 * (attempt + 1))]))"

text \<open>
  One step of a pass: the awaited promise settles, on the file system as it is at that
  moment, and the pass runs on to its next await. There is no step when the promise
  never settles, and none for a pass that is over.
\<close>

fun pass_step :: "env \<Rightarrow> pass \<Rightarrow> filesystem \<Rightarrow> (pass \<times> filesystem \<times> effect list) option" where
  "pass_step env (AwaitList attempt) fs =
     (case listFiles (fuel env) (isValidFile env) (drive_at env attempt) (folderId env) of
        None \<Rightarrow> None
      | Some (Inl e) \<Rightarrow>
          Some (fst (catch_error attempt e), fs, ListFiles # snd (catch_error attempt e))
      | Some (Inr files) \<Rightarrow>
          Some (AwaitReaddir attempt files, fs, [ListFiles, Log (Info_found (length files))]))"
| "pass_step env (AwaitReaddir attempt files) fs =
     (case readdir_at env attempt of
        Some e \<Rightarrow> Some (fst (catch_error attempt e), fs, Readdir # snd (catch_error attempt e))
      | None \<Rightarrow>
          Some (next_download attempt files (readdir fs (downloadPath env)) files, fs, [Readdir]))"
| "pass_step env (AwaitExists attempt files localFiles (file # rest)) fs =
     (if pathExists fs (path_join (downloadPath env) (file_name file))
      then Some (next_download attempt files localFiles rest, fs, [])
      else Some (AwaitGet attempt files localFiles (file # rest), fs, []))"
| "pass_step env (AwaitGet attempt files localFiles (file # rest)) fs =
     (case get_result (download_of env file) of
        Some e \<Rightarrow>
          Some (next_download attempt files localFiles rest, fs,
                [Download (file_id file) (file_name file),
                 Log (Warn_download_failed (file_name file))])
      | None \<Rightarrow>
          Some (AwaitStream attempt files localFiles (file # rest),
                (if file_created (download_of env file)
                 then create_file (path_join (downloadPath env) (file_name file)) fs else fs),
                [Download (file_id file) (file_name file)]))"
| "pass_step env (AwaitStream attempt files localFiles (file # rest)) fs =
     (case foldl settle Pending (stream_events (download_of env file)) of
        Pending \<Rightarrow> None
      | Resolved \<Rightarrow>
          Some (next_download attempt files localFiles rest,
                create_file (path_join (downloadPath env) (file_name file)) fs,
                [Log (Info_downloaded (file_name file))])
      | Rejected e \<Rightarrow>
          Some (next_download attempt files localFiles rest, fs,
                [Log (Warn_download_failed (file_name file))]))"
| "pass_step env (AwaitRemove attempt files (localFile # rest)) fs =
     (case remove_result env localFile of
        None \<Rightarrow>
          Some (next_removal attempt files rest,
                remove_file (path_join (downloadPath env) localFile) fs,
                [Remove localFile, Log (Info_removed localFile)])
      | Some e \<Rightarrow>
          Some (next_removal attempt files rest, fs,
                [Remove localFile, Log (Warn_remove_failed localFile)]))"
| "pass_step env (AwaitTimeout attempt) fs = Some (enter_loop attempt, fs, [])"
| "pass_step env p fs = None"

text \<open>
  A pass goes from one state to another in some number of steps, with these effects,
  and a call of \<open>syncFiles\<close> that has returned or thrown is a pass that is over.
\<close>

inductive pass_run ::
    "env \<Rightarrow> pass \<Rightarrow> filesystem \<Rightarrow> effect list \<Rightarrow> pass \<Rightarrow> filesystem \<Rightarrow> bool"
  for env :: env
where
  pass_stays: "pass_run env p fs [] p fs"
| pass_moves:
    "pass_step env p fs = Some (p1, fs1, t1) \<Longrightarrow> pass_run env p1 fs1 t2 p' fs' \<Longrightarrow>
     pass_run env p fs (t1 @ t2) p' fs'"

fun is_over :: "pass \<Rightarrow> bool" where
  "is_over (Returned r) = True"
| "is_over (Threw e) = True"
| "is_over p = False"

definition outcome :: "error + RemoteFileRecord list option \<Rightarrow> pass" where
  "outcome r = (case r of Inl e \<Rightarrow> Threw e | Inr files \<Rightarrow> Returned files)"

subsection \<open>The schedule\<close>

text \<open>
  The fields of the service that the scheduling reads and writes, the local file
  system, the trace of all effects so far, and the passes that have been started,
  each with the environment it runs in and with who awaits it: the callback of the
  interval timer, which catches and logs what the pass throws, or \<open>startSync\<close>, which
  lets it through to its caller. \<open>syncInterval\<close> holds the period of the installed
  interval timer.
\<close>

datatype origin = ByTimer | ByStartSync

record service =
  syncInterval :: "nat option"
  isPaused :: bool
  local_files :: filesystem
  trace :: "effect list"
  passes :: "(origin \<times> env \<times> pass) list"

definition stop :: "service \<Rightarrow> service" where
  "stop s = (case syncInterval s of None \<Rightarrow> s | Some t \<Rightarrow> s\<lparr>syncInterval := None\<rparr>)"

definition say :: "log_entry \<Rightarrow> service \<Rightarrow> service" where
  "say l s = s\<lparr>trace := trace s @ [Log l]\<rparr>"

definition pause :: "service \<Rightarrow> service" where
  "pause s = stop ((say Info_pausing s)\<lparr>isPaused := True\<rparr>)"

text \<open>
  A call of \<open>syncFiles\<close> runs as far as its first await, the listing, and from then on
  the pass is in flight.
\<close>

definition begin_pass :: "origin \<Rightarrow> env \<Rightarrow> service \<Rightarrow> service" where
  "begin_pass who env s = s\<lparr>passes := passes s @ [(who, env, enter_loop 0)]\<rparr>"

text \<open>
  \<open>startSync\<close> up to the pass it starts and awaits, and \<open>resume\<close>, which calls it with the
  configured period.
\<close>

definition startSync :: "env \<Rightarrow> nat \<Rightarrow> service \<Rightarrow> service" where
  "startSync env interval s =
     (let s1 = (case syncInterval s of None \<Rightarrow> s | Some t \<Rightarrow> s\<lparr>syncInterval := None\<rparr>)
      in if isPaused s1 then say Info_paused_not_starting s1
         else
           (let s2 = s1\<lparr>syncInterval := Some interval\<rparr>
            in if \<not> isPaused s2 then begin_pass ByStartSync env s2 else s2))"

definition resume :: "env \<Rightarrow> service \<Rightarrow> service" where
  "resume env s = startSync env (sync_interval env) ((say Info_resuming s)\<lparr>isPaused := False\<rparr>)"

text \<open>The function given to \<^verbatim>\<open>setInterval\<close>, up to the pass it starts and awaits.\<close>

definition timer_callback :: "env \<Rightarrow> service \<Rightarrow> service" where
  "timer_callback env s = (if \<not> isPaused s then begin_pass ByTimer env s else s)"

text \<open>
  The same function when the pass it starts runs to its end with nothing in between:
  it catches what \<open>syncFiles\<close> throws.
\<close>

definition interval_callback :: "env \<Rightarrow> service \<Rightarrow> service option" where
  "interval_callback env s =
     (if \<not> isPaused s then
        (case syncFiles env (local_files s) of
           None \<Rightarrow> None
         | Some (Inl e, local, effs) \<Rightarrow>
             Some (say Error_sync_failed (s\<lparr>local_files := local, trace := trace s @ effs\<rparr>))
         | Some (Inr files, local, effs) \<Rightarrow>
             Some (s\<lparr>local_files := local, trace := trace s @ effs\<rparr>))
      else Some s)"

text \<open>
  A pass in flight takes its next step, if it has one. When the step ends a pass of
  the timer with an error, the callback logs it.
\<close>

definition caught :: "origin \<Rightarrow> pass \<Rightarrow> effect list" where
  "caught who p =
     (case p of Threw e \<Rightarrow> (if who = ByTimer then [Log Error_sync_failed] else []) | _ \<Rightarrow> [])"

definition advance :: "nat \<Rightarrow> service \<Rightarrow> service" where
  "advance k s =
     (if k < length (passes s) then
        (case passes s ! k of
           (who, env, p) \<Rightarrow>
             (case pass_step env p (local_files s) of
                None \<Rightarrow> s
              | Some (p', fs', effs) \<Rightarrow>
                  s\<lparr>local_files := fs', trace := trace s @ effs @ caught who p',
                    passes := (passes s)[k := (who, env, p')]\<rparr>))
      else s)"

text \<open>
  What can happen to the service: its methods are called, each in the environment of
  that moment; the interval timer fires, which runs the callback if a timer is
  installed; a pass in flight takes a step. A method or a callback runs as far as
  the pass it starts; the steps of the passes come whenever their promises settle,
  between and after the calls.
\<close>

datatype service_op =
    CallStartSync env nat
  | TimerFires env
  | CallStop
  | CallPause
  | CallResume env
  | Advance nat

fun is_resume :: "service_op \<Rightarrow> bool" where
  "is_resume (CallResume env) = True"
| "is_resume other = False"

definition service_step :: "service \<Rightarrow> service_op \<Rightarrow> service" where
  "service_step s c =
     (case c of
        CallStartSync env interval \<Rightarrow> startSync env interval s
      | TimerFires env \<Rightarrow>
          (case syncInterval s of None \<Rightarrow> s | Some t \<Rightarrow> timer_callback env s)
      | CallStop \<Rightarrow> stop s
      | CallPause \<Rightarrow> pause s
      | CallResume env \<Rightarrow> resume env s
      | Advance k \<Rightarrow> advance k s)"

definition run_service :: "service_op list \<Rightarrow> service \<Rightarrow> service" where
  "run_service cs s = foldl service_step s cs"

text \<open>The requests a list of effects makes to the drive and to the file system for files.\<close>

fun is_transfer :: "effect \<Rightarrow> bool" where
  "is_transfer (Download i n) = True"
| "is_transfer (Remove n) = True"
| "is_transfer ev = False"

fun waits :: "effect list \<Rightarrow> nat list" where
  "waits [] = []"
| "waits (Wait ms # evs) = ms # waits evs"
| "waits (ev # evs) = waits evs"

subsection \<open>An environment to run the job in\<close>

text \<open>
  A drive whose root folder holds the two files \<open>a.jpg\<close> and \<open>b.mp4\<close>, in an environment
  where every request succeeds and the download directory is \<^verbatim>\<open>/srv/media\<close>.
  Environments in which requests fail are updates of this one. \<open>mirror_of\<close> is the file
  system that holds \<^verbatim>\<open>/srv\<close> and the download directory with the given entries.
\<close>

definition file_a :: RemoteFileRecord where
  "file_a = \<lparr>file_id = ''1'', file_name = ''a.jpg'', mimeType = ''image/jpeg'',
             parents = [''root'']\<rparr>"

definition file_b :: RemoteFileRecord where
  "file_b = \<lparr>file_id = ''2'', file_name = ''b.mp4'', mimeType = ''video/mp4'',
             parents = [''root'']\<rparr>"

definition example_drive :: drive where
  "example_drive p = (if p = ''root'' then Inr [file_a, file_b] else Inr [])"

text \<open>
  A drive that also holds a file whose name leads out of the download directory.
\<close>

definition file_x :: RemoteFileRecord where
  "file_x = \<lparr>file_id = ''3'', file_name = ''../x.jpg'', mimeType = ''image/jpeg'',
             parents = [''root'']\<rparr>"

definition escaping_drive :: drive where
  "escaping_drive p = (if p = ''root'' then Inr [file_a, file_x] else Inr [])"

definition unreachable_drive :: drive where
  "unreachable_drive p = Inl (Error ''ECONNRESET'')"

definition example_env :: env where
  "example_env =
     \<lparr>isValidFile = (\<lambda>n. True), folderId = ''root'', downloadPath = [''srv'', ''media''],
      sync_interval = 60000, fuel = 4,
      drive_at = (\<lambda>attempt. example_drive),
      readdir_at = (\<lambda>attempt. None),
      download_of = (\<lambda>file. \<lparr>get_result = None, stream_events = [DestFinish],
                                file_created = True\<rparr>),
      remove_result = (\<lambda>n. None)\<rparr>"

text \<open>An environment in which the drive cannot be reached at the first attempt only.\<close>

definition retrying_env :: env where
  "retrying_env =
     example_env\<lparr>drive_at :=
       (\<lambda>attempt. if attempt = 0 then unreachable_drive else example_drive)\<rparr>"

text \<open>
  Two environments in which the download of \<open>a.jpg\<close> fails: the request is refused, or
  the response stream breaks while the file is being written.
\<close>

definition refusing_env :: env where
  "refusing_env =
     example_env\<lparr>download_of := (\<lambda>file.
        if file_name file = ''a.jpg''
        then \<lparr>get_result = Some (Error ''403''), stream_events = [], file_created = False\<rparr>
        else \<lparr>get_result = None, stream_events = [DestFinish], file_created = True\<rparr>)\<rparr>"

definition stalling_env :: env where
  "stalling_env =
     example_env\<lparr>download_of := (\<lambda>file.
        if file_name file = ''a.jpg''
        then \<lparr>get_result = None, stream_events = [SourceError (Error ''ECONNRESET'')],
              file_created = True\<rparr>
        else \<lparr>get_result = None, stream_events = [DestFinish], file_created = True\<rparr>)\<rparr>"

definition mirror_of :: "string list \<Rightarrow> filesystem" where
  "mirror_of names =
     [''srv''] # [''srv'', []] # [''srv'', ''media''] # [''srv'', ''media'', []] #
     map (\<lambda>n. [''srv'', ''media'', n]) names"

definition example_service :: service where
  "example_service =
     \<lparr>syncInterval = Some 60000, isPaused = False,
      local_files = mirror_of [''a.jpg'', ''c.jpg''], trace = [], passes = []\<rparr>"

section \<open>Properties of the channel\<close>

lemma js_rem_nonneg: "0 \<le> a \<Longrightarrow> 0 < b \<Longrightarrow> js_rem a b = a mod b"
  by (cases "a = 0") (simp_all add: js_rem_def)

subsection \<open>Navigation\<close>

lemma js_rem_small: "0 \<le> a \<Longrightarrow> a < b \<Longrightarrow> js_rem a b = a"
  by (simp add: js_rem_nonneg)

lemma js_rem_self: "0 < b \<Longrightarrow> js_rem b b = 0"
  by (simp add: js_rem_def)

lemma js_rem_next_previous:
  fixes i n :: int
  assumes "0 < n" "0 \<le> i" "i < n"
  shows "js_rem (js_rem (i + 1) n - 1 + n) n = i"
proof (cases "i + 1 = n")
  case True
  then have "js_rem (i + 1) n = 0" using assms(1) by (simp add: js_rem_self)
  moreover have "js_rem (n - 1) n = n - 1" using assms(1) by (intro js_rem_small) auto
  ultimately show ?thesis using True by simp
next
  case False
  then have "js_rem (i + 1) n = i + 1" using assms by (intro js_rem_small) auto
  moreover have "js_rem (i + n) n = i"
    using assms by (simp add: js_rem_nonneg)
  ultimately show ?thesis by simp
qed

lemma js_rem_previous_first:
  fixes n :: int
  assumes "0 < n"
  shows "js_rem (0 - 1 + n) n = n - 1"
proof -
  have "js_rem (n - 1) n = n - 1" using assms by (intro js_rem_small) auto
  then show ?thesis by simp
qed

lemma js_rem_next_last:
  fixes n :: int
  assumes "0 < n"
  shows "js_rem (n - 1 + 1) n = 0"
  by (simp add: js_rem_def)

lemma length_pos_int: "1 \<le> length xs \<Longrightarrow> 0 < int (length xs)"
  by (cases xs) simp_all

lemma navigate_round_trip:
  assumes "1 \<le> length (allMedia s)" "0 \<le> currentIndex s"
    "currentIndex s < int (length (allMedia s))"
  shows "navigateMedia (navigateMedia s ''next'') ''previous'' = s"
proof -
  have ne: "allMedia s \<noteq> []" using assms(1) by (cases "allMedia s") simp_all
  show ?thesis
    using ne js_rem_next_previous [OF length_pos_int [OF assms(1)] assms(2) assms(3)]
    by (simp add: navigateMedia_def)
qed

lemma navigate_previous_at_0:
  assumes "1 \<le> length (allMedia s)" "currentIndex s = 0"
  shows "currentIndex (navigateMedia s ''previous'') = int (length (allMedia s)) - 1"
proof -
  have ne: "allMedia s \<noteq> []" using assms(1) by (cases "allMedia s") simp_all
  show ?thesis
    using ne assms(2) js_rem_previous_first [OF length_pos_int [OF assms(1)]]
    by (simp add: navigateMedia_def)
qed

lemma navigate_next_at_last:
  assumes "1 \<le> length (allMedia s)" "currentIndex s = int (length (allMedia s)) - 1"
  shows "currentIndex (navigateMedia s ''next'') = 0"
proof -
  have ne: "allMedia s \<noteq> []" using assms(1) by (cases "allMedia s") simp_all
  show ?thesis
    using ne assms(2) js_rem_next_last [OF length_pos_int [OF assms(1)]]
    by (simp add: navigateMedia_def)
qed

lemma navigate_empty: "length (allMedia s) = 0 \<Longrightarrow> navigateMedia s d = s"
  by (simp add: navigateMedia_def)

text \<open>
  Claim C3. On a list of \<open>N \<ge> 1\<close> items and from every index in \<open>[0, N)\<close>, \<open>next\<close> followed
  by \<open>previous\<close> gives back the state it started from; \<open>previous\<close> at index 0 leads to
  \<open>N - 1\<close> and \<open>next\<close> at index \<open>N - 1\<close> leads to 0. With no items, navigating in
  either direction changes nothing.
\<close>

theorem navigate_next_previous:
  "(1 \<le> length (allMedia s) \<and> 0 \<le> currentIndex s \<and>
      currentIndex s < int (length (allMedia s)) \<longrightarrow>
        navigateMedia (navigateMedia s ''next'') ''previous'' = s \<and>
        (currentIndex s = 0 \<longrightarrow>
           currentIndex (navigateMedia s ''previous'') = int (length (allMedia s)) - 1) \<and>
        (currentIndex s = int (length (allMedia s)) - 1 \<longrightarrow>
           currentIndex (navigateMedia s ''next'') = 0)) \<and>
   (length (allMedia s) = 0 \<longrightarrow>
      navigateMedia s ''next'' = s \<and> navigateMedia s ''previous'' = s)"
  using navigate_round_trip [of s] navigate_previous_at_0 [of s] navigate_next_at_last [of s]
    navigate_empty [of s]
  by blast

theorem navigate_next_previous_witness:
  "navigateMedia (navigateMedia
      (initial_channel\<lparr>allMedia := [\<lparr>media_id = ''a'', media_path = ''/a.jpg'', media_type = ''image''\<rparr>,
                                   \<lparr>media_id = ''b'', media_path = ''/b.mp4'', media_type = ''video''\<rparr>],
                       currentIndex := 1\<rparr>) ''next'') ''previous'' =
      initial_channel\<lparr>allMedia := [\<lparr>media_id = ''a'', media_path = ''/a.jpg'', media_type = ''image''\<rparr>,
                                   \<lparr>media_id = ''b'', media_path = ''/b.mp4'', media_type = ''video''\<rparr>],
                       currentIndex := 1\<rparr> \<and>
   currentIndex (navigateMedia
      (initial_channel\<lparr>allMedia := [\<lparr>media_id = ''a'', media_path = ''/a.jpg'', media_type = ''image''\<rparr>,
                                   \<lparr>media_id = ''b'', media_path = ''/b.mp4'', media_type = ''video''\<rparr>],
                       currentIndex := 1\<rparr>) ''next'') = 0 \<and>
   currentIndex (navigateMedia
      (initial_channel\<lparr>allMedia := [\<lparr>media_id = ''a'', media_path = ''/a.jpg'', media_type = ''image''\<rparr>,
                                   \<lparr>media_id = ''b'', media_path = ''/b.mp4'', media_type = ''video''\<rparr>]\<rparr>)
        ''previous'') = 1 \<and>
   navigateMedia initial_channel ''next'' = initial_channel"
  using navigate_next_previous
     [of "initial_channel\<lparr>allMedia := [\<lparr>media_id = ''a'', media_path = ''/a.jpg'', media_type = ''image''\<rparr>,
                                   \<lparr>media_id = ''b'', media_path = ''/b.mp4'', media_type = ''video''\<rparr>],
                       currentIndex := 1\<rparr>"]
    navigate_next_previous
     [of "initial_channel\<lparr>allMedia := [\<lparr>media_id = ''a'', media_path = ''/a.jpg'', media_type = ''image''\<rparr>,
                                   \<lparr>media_id = ''b'', media_path = ''/b.mp4'', media_type = ''video''\<rparr>]\<rparr>"]
    navigate_next_previous [of initial_channel]
  by (simp add: initial_channel_def)

subsection \<open>Playlist messages\<close>

lemma js_rem_range: "0 \<le> a \<Longrightarrow> 0 < b \<Longrightarrow> 0 \<le> js_rem a b \<and> js_rem a b < b"
  by (simp add: js_rem_nonneg)

text \<open>
  Once a render has seen the current list, the callback the user interface holds is
  \<open>navigateMedia\<close> itself.
\<close>

lemma navigateMedia_rendered_current:
  "renderedLength s = length (allMedia s) \<Longrightarrow> navigateMedia_rendered s d = navigateMedia s d"
  by (simp add: navigateMedia_rendered_def navigateMedia_def)

lemma navigate_after_render:
  "channel_step cfg (channel_step cfg s Render) (Navigate d) =
     (navigateMedia s d)\<lparr>renderedLength := length (allMedia s)\<rparr>"
  by (simp add: channel_step_def navigateMedia_rendered_def navigateMedia_def)

lemma index_nonneg_onmessage: "0 \<le> currentIndex s \<Longrightarrow> 0 \<le> currentIndex (onmessage s m)"
  by (auto simp: onmessage_def split: option.splits)

lemma index_nonneg_navigate:
  assumes "0 \<le> currentIndex s"
  shows "0 \<le> currentIndex (navigateMedia_rendered s d)"
proof (cases "renderedLength s = 0")
  case True
  then show ?thesis using assms by (simp add: navigateMedia_rendered_def)
next
  case False
  then have n: "0 < int (renderedLength s)" by simp
  have a: "0 \<le> currentIndex s + 1" using assms by simp
  have b: "0 \<le> currentIndex s - 1 + int (renderedLength s)" using assms n by linarith
  show ?thesis
    using False assms js_rem_range [OF a n] js_rem_range [OF b n]
    by (simp add: navigateMedia_rendered_def)
qed

lemma index_nonneg_step: "0 \<le> currentIndex s \<Longrightarrow> 0 \<le> currentIndex (channel_step cfg s e)"
proof (cases e)
  case (WsMessage m)
  assume "0 \<le> currentIndex s"
  then show ?thesis using WsMessage by (simp add: channel_step_def index_nonneg_onmessage)
next
  case (Navigate d)
  assume "0 \<le> currentIndex s"
  then show ?thesis using Navigate by (simp add: channel_step_def index_nonneg_navigate)
qed (auto simp: channel_step_def onopen_def onerror_def onclose_def
      setTimeout_def clearTimeout_def connect_def effect_run_def effect_cleanup_def Let_def
      split: option.splits)

lemma index_nonneg_run: "0 \<le> currentIndex s \<Longrightarrow> 0 \<le> currentIndex (run_channel cfg es s)"
  unfolding run_channel_def
  by (induction es arbitrary: s) (simp_all add: index_nonneg_step)

text \<open>
  Between a playlist message and the next render the callback still wraps with the
  old length. After a list of two items has been rendered and a message has replaced
  it by a list of one item, \<open>next\<close> moves the index to 1, where the hook exposes no item.
\<close>

lemma navigate_before_render:
  "currentIndex (run_channel
      \<lparr>isScheduleActive = True, MAX_RECONNECT_ATTEMPTS = 5, RECONNECT_INTERVAL = 3000\<rparr>
      [WsOpen,
       WsMessage (Some \<lparr>msg_type = ''mediaList'',
             media = [\<lparr>media_id = ''a'', media_path = ''/a.jpg'', media_type = ''image''\<rparr>,
                      \<lparr>media_id = ''b'', media_path = ''/b.mp4'', media_type = ''video''\<rparr>]\<rparr>),
       Render,
       WsMessage (Some \<lparr>msg_type = ''mediaUpdate'',
             media = [\<lparr>media_id = ''a'', media_path = ''/a.jpg'', media_type = ''image''\<rparr>]\<rparr>),
       Navigate ''next'']
      initial_channel) = 1 \<and>
   getCurrentMedia (run_channel
      \<lparr>isScheduleActive = True, MAX_RECONNECT_ATTEMPTS = 5, RECONNECT_INTERVAL = 3000\<rparr>
      [WsOpen,
       WsMessage (Some \<lparr>msg_type = ''mediaList'',
             media = [\<lparr>media_id = ''a'', media_path = ''/a.jpg'', media_type = ''image''\<rparr>,
                      \<lparr>media_id = ''b'', media_path = ''/b.mp4'', media_type = ''video''\<rparr>]\<rparr>),
       Render,
       WsMessage (Some \<lparr>msg_type = ''mediaUpdate'',
             media = [\<lparr>media_id = ''a'', media_path = ''/a.jpg'', media_type = ''image''\<rparr>]\<rparr>),
       Navigate ''next'']
      initial_channel) = None"
  by (simp add: initial_channel_def run_channel_def channel_step_def onopen_def onmessage_def
       navigateMedia_rendered_def getCurrentMedia_def js_rem_def)

text \<open>
  Claim C2, as amended. A \<open>mediaList\<close> or \<open>mediaUpdate\<close> message carrying \<open>L\<close> items
  replaces the item sequence; the index becomes 0 when the old index is at least \<open>L\<close>
  and is kept otherwise. So, from a non-negative index, the state the handler leaves
  has its index in \<open>[0, L)\<close> when \<open>L \<ge> 1\<close>, and index 0 when \<open>L = 0\<close>. The index is
  non-negative in every state the hook reaches from its first render.
\<close>

theorem onmessage_playlist:
  "(msg_type d = ''mediaList'' \<or> msg_type d = ''mediaUpdate'' \<longrightarrow>
      allMedia (onmessage s (Some d)) = media d \<and>
      currentIndex (onmessage s (Some d)) =
        (if currentIndex s \<ge> int (length (media d)) then 0 else currentIndex s) \<and>
      (0 \<le> currentIndex s \<and> 1 \<le> length (media d) \<longrightarrow>
         0 \<le> currentIndex (onmessage s (Some d)) \<and>
         currentIndex (onmessage s (Some d)) < int (length (media d))) \<and>
      (0 \<le> currentIndex s \<and> length (media d) = 0 \<longrightarrow>
         currentIndex (onmessage s (Some d)) = 0)) \<and>
   0 \<le> currentIndex (run_channel cfg es initial_channel)"
proof -
  have inv: "0 \<le> currentIndex (run_channel cfg es initial_channel)"
    by (rule index_nonneg_run) (simp add: initial_channel_def)
  have msg: "msg_type d = ''mediaList'' \<or> msg_type d = ''mediaUpdate'' \<longrightarrow>
      allMedia (onmessage s (Some d)) = media d \<and>
      currentIndex (onmessage s (Some d)) =
        (if currentIndex s \<ge> int (length (media d)) then 0 else currentIndex s) \<and>
      (0 \<le> currentIndex s \<and> 1 \<le> length (media d) \<longrightarrow>
         0 \<le> currentIndex (onmessage s (Some d)) \<and>
         currentIndex (onmessage s (Some d)) < int (length (media d))) \<and>
      (0 \<le> currentIndex s \<and> length (media d) = 0 \<longrightarrow>
         currentIndex (onmessage s (Some d)) = 0)"
    by (auto simp: onmessage_def)
  show ?thesis using inv msg by blast
qed

text \<open>
  The interval \<open>[0, length)\<close> of the claim is empty when the playlist is: after an empty
  \<open>mediaList\<close> the index is 0 and the length is 0.
\<close>

theorem onmessage_empty_list_counterexample:
  "\<not> (0 \<le> currentIndex (onmessage initial_channel (Some \<lparr>msg_type = ''mediaList'', media = []\<rparr>)) \<and>
      currentIndex (onmessage initial_channel (Some \<lparr>msg_type = ''mediaList'', media = []\<rparr>))
        < int (length (allMedia
            (onmessage initial_channel (Some \<lparr>msg_type = ''mediaList'', media = []\<rparr>)))))"
  by (simp add: onmessage_def initial_channel_def)

theorem onmessage_playlist_witness:
  "currentIndex (onmessage
      (initial_channel\<lparr>allMedia :=
          [\<lparr>media_id = ''a'', media_path = ''/a.jpg'', media_type = ''image''\<rparr>,
           \<lparr>media_id = ''b'', media_path = ''/b.mp4'', media_type = ''video''\<rparr>,
           \<lparr>media_id = ''c'', media_path = ''/c.jpg'', media_type = ''image''\<rparr>],
         currentIndex := 2\<rparr>)
      (Some \<lparr>msg_type = ''mediaUpdate'',
             media = [\<lparr>media_id = ''a'', media_path = ''/a.jpg'', media_type = ''image''\<rparr>]\<rparr>)) = 0 \<and>
   currentIndex (onmessage
      (initial_channel\<lparr>allMedia :=
          [\<lparr>media_id = ''a'', media_path = ''/a.jpg'', media_type = ''image''\<rparr>,
           \<lparr>media_id = ''b'', media_path = ''/b.mp4'', media_type = ''video''\<rparr>],
         currentIndex := 1\<rparr>)
      (Some \<lparr>msg_type = ''mediaList'',
             media = [\<lparr>media_id = ''a'', media_path = ''/a.jpg'', media_type = ''image''\<rparr>,
                      \<lparr>media_id = ''c'', media_path = ''/c.jpg'', media_type = ''image''\<rparr>]\<rparr>)) = 1 \<and>
   currentIndex (onmessage initial_channel (Some \<lparr>msg_type = ''mediaList'', media = []\<rparr>)) = 0 \<and>
   currentIndex (run_channel
      \<lparr>isScheduleActive = True, MAX_RECONNECT_ATTEMPTS = 5, RECONNECT_INTERVAL = 3000\<rparr>
      [WsOpen,
       WsMessage (Some \<lparr>msg_type = ''mediaList'',
             media = [\<lparr>media_id = ''a'', media_path = ''/a.jpg'', media_type = ''image''\<rparr>,
                      \<lparr>media_id = ''b'', media_path = ''/b.mp4'', media_type = ''video''\<rparr>]\<rparr>),
       Render,
       Navigate ''previous'']
      initial_channel) = 1"
  using onmessage_playlist
     [of "\<lparr>msg_type = ''mediaUpdate'',
             media = [\<lparr>media_id = ''a'', media_path = ''/a.jpg'', media_type = ''image''\<rparr>]\<rparr>"
         "initial_channel\<lparr>allMedia :=
          [\<lparr>media_id = ''a'', media_path = ''/a.jpg'', media_type = ''image''\<rparr>,
           \<lparr>media_id = ''b'', media_path = ''/b.mp4'', media_type = ''video''\<rparr>,
           \<lparr>media_id = ''c'', media_path = ''/c.jpg'', media_type = ''image''\<rparr>],
         currentIndex := 2\<rparr>"
         "\<lparr>isScheduleActive = True, MAX_RECONNECT_ATTEMPTS = 5, RECONNECT_INTERVAL = 3000\<rparr>"
         "[WsOpen,
       WsMessage (Some \<lparr>msg_type = ''mediaList'',
             media = [\<lparr>media_id = ''a'', media_path = ''/a.jpg'', media_type = ''image''\<rparr>,
                      \<lparr>media_id = ''b'', media_path = ''/b.mp4'', media_type = ''video''\<rparr>]\<rparr>),
       Render,
       Navigate ''previous'']"]
    onmessage_playlist
     [of "\<lparr>msg_type = ''mediaList'',
             media = [\<lparr>media_id = ''a'', media_path = ''/a.jpg'', media_type = ''image''\<rparr>,
                      \<lparr>media_id = ''c'', media_path = ''/c.jpg'', media_type = ''image''\<rparr>]\<rparr>"
         "initial_channel\<lparr>allMedia :=
          [\<lparr>media_id = ''a'', media_path = ''/a.jpg'', media_type = ''image''\<rparr>,
           \<lparr>media_id = ''b'', media_path = ''/b.mp4'', media_type = ''video''\<rparr>],
         currentIndex := 1\<rparr>"
         "\<lparr>isScheduleActive = True, MAX_RECONNECT_ATTEMPTS = 5, RECONNECT_INTERVAL = 3000\<rparr>" "[]"]
    onmessage_playlist
     [of "\<lparr>msg_type = ''mediaList'', media = []\<rparr>" initial_channel
         "\<lparr>isScheduleActive = True, MAX_RECONNECT_ATTEMPTS = 5, RECONNECT_INTERVAL = 3000\<rparr>" "[]"]
  by (simp add: initial_channel_def run_channel_def channel_step_def onopen_def onmessage_def
       navigateMedia_rendered_def js_rem_def)

subsection \<open>Reconnection\<close>

lemma close_schedules:
  assumes "isScheduleActive cfg" "reconnectAttemptsRef s < MAX_RECONNECT_ATTEMPTS cfg"
  shows "reconnectAttemptsRef (channel_step cfg s WsClose) = reconnectAttemptsRef s + 1"
    and "timers (channel_step cfg s WsClose) = timers s @ [(next_timer s, RECONNECT_INTERVAL cfg)]"
    and "next_timer (channel_step cfg s WsClose) = next_timer s + 1"
    and "reconnectTimerRef (channel_step cfg s WsClose) = Some (next_timer s)"
  using assms by (simp_all add: channel_step_def onclose_def setTimeout_def)

lemma close_at_cap:
  assumes "MAX_RECONNECT_ATTEMPTS cfg \<le> reconnectAttemptsRef s"
  shows "reconnectAttemptsRef (channel_step cfg s WsClose) = reconnectAttemptsRef s"
    and "timers (channel_step cfg s WsClose) = timers s"
    and "next_timer (channel_step cfg s WsClose) = next_timer s"
  using assms by (simp_all add: channel_step_def onclose_def setTimeout_def)

lemma other_event_schedules_nothing:
  assumes "e \<noteq> WsClose"
  shows "next_timer (channel_step cfg s e) = next_timer s"
    and "set (timers (channel_step cfg s e)) \<subseteq> set (timers s)"
    and "e \<noteq> WsOpen \<Longrightarrow> reconnectAttemptsRef (channel_step cfg s e) = reconnectAttemptsRef s"
  using assms
  by (cases e; auto simp: channel_step_def onopen_def onerror_def onmessage_def navigateMedia_rendered_def
        clearTimeout_def connect_def effect_run_def effect_cleanup_def Let_def
        split: option.splits)+

lemma open_resets: "reconnectAttemptsRef (channel_step cfg s WsOpen) = 0"
  by (simp add: channel_step_def onopen_def clearTimeout_def Let_def split: option.splits)

lemma run_channel_Cons:
  "run_channel cfg (e # es) s = run_channel cfg es (channel_step cfg s e)"
  by (simp add: run_channel_def)

lemma run_channel_append:
  "run_channel cfg (es @ es') s = run_channel cfg es' (run_channel cfg es s)"
  by (simp add: run_channel_def)

lemma run_counts:
  assumes "isScheduleActive cfg" "WsOpen \<notin> set es"
    "reconnectAttemptsRef s \<le> MAX_RECONNECT_ATTEMPTS cfg"
  shows "reconnectAttemptsRef (run_channel cfg es s) =
           min (MAX_RECONNECT_ATTEMPTS cfg) (reconnectAttemptsRef s + count_list es WsClose) \<and>
         next_timer (run_channel cfg es s) + reconnectAttemptsRef s =
           next_timer s + reconnectAttemptsRef (run_channel cfg es s)"
  using assms(2,3)
proof (induction es arbitrary: s)
  case Nil
  then show ?case by (simp add: run_channel_def)
next
  case (Cons e es)
  let ?s = "channel_step cfg s e"
  have no: "WsOpen \<notin> set es" and eo: "e \<noteq> WsOpen" using Cons.prems(1) by auto
  show ?case
  proof (cases "e = WsClose")
    case True
    show ?thesis
    proof (cases "reconnectAttemptsRef s < MAX_RECONNECT_ATTEMPTS cfg")
      case lt: True
      have a: "reconnectAttemptsRef ?s = reconnectAttemptsRef s + 1"
        and n: "next_timer ?s = next_timer s + 1"
        using close_schedules [OF assms(1) lt] True by simp_all
      have le: "reconnectAttemptsRef ?s \<le> MAX_RECONNECT_ATTEMPTS cfg" using a lt by simp
      from Cons.IH [OF no le] a n True lt show ?thesis
        by (simp add: run_channel_Cons min_def)
    next
      case ge: False
      then have cap: "MAX_RECONNECT_ATTEMPTS cfg \<le> reconnectAttemptsRef s" by simp
      have a: "reconnectAttemptsRef ?s = reconnectAttemptsRef s"
        and n: "next_timer ?s = next_timer s"
        using close_at_cap [OF cap] True by simp_all
      have le: "reconnectAttemptsRef ?s \<le> MAX_RECONNECT_ATTEMPTS cfg"
        using a Cons.prems(2) by simp
      from Cons.IH [OF no le] a n True cap Cons.prems(2) show ?thesis
        by (simp add: run_channel_Cons min_def)
    qed
  next
    case False
    have a: "reconnectAttemptsRef ?s = reconnectAttemptsRef s"
      and n: "next_timer ?s = next_timer s"
      using other_event_schedules_nothing [OF False] eo by simp_all
    have le: "reconnectAttemptsRef ?s \<le> MAX_RECONNECT_ATTEMPTS cfg"
      using a Cons.prems(2) by simp
    from Cons.IH [OF no le] a n False show ?thesis
      by (simp add: run_channel_Cons)
  qed
qed

lemma run_at_cap:
  assumes "WsOpen \<notin> set es" "MAX_RECONNECT_ATTEMPTS cfg \<le> reconnectAttemptsRef s"
  shows "reconnectAttemptsRef (run_channel cfg es s) = reconnectAttemptsRef s \<and>
         next_timer (run_channel cfg es s) = next_timer s \<and>
         set (timers (run_channel cfg es s)) \<subseteq> set (timers s)"
  using assms
proof (induction es arbitrary: s)
  case Nil
  then show ?case by (simp add: run_channel_def)
next
  case (Cons e es)
  let ?s = "channel_step cfg s e"
  have no: "WsOpen \<notin> set es" and eo: "e \<noteq> WsOpen" using Cons.prems(1) by auto
  have st: "reconnectAttemptsRef ?s = reconnectAttemptsRef s \<and> next_timer ?s = next_timer s \<and>
     set (timers ?s) \<subseteq> set (timers s)"
  proof (cases "e = WsClose")
    case True
    then show ?thesis using close_at_cap [OF Cons.prems(2)] by simp
  next
    case False
    then show ?thesis using other_event_schedules_nothing [OF False] eo by simp
  qed
  then have cap: "MAX_RECONNECT_ATTEMPTS cfg \<le> reconnectAttemptsRef ?s"
    using Cons.prems(2) by simp
  from Cons.IH [OF no cap] st show ?case
    by (auto simp: run_channel_Cons)
qed

text \<open>
  Claim C6. With the activation flag true: a \<open>close\<close> event below the cap increments the
  attempt counter and enters exactly one new timeout, with the configured interval; an
  \<open>open\<close> event resets the counter to 0. Starting from a counter of 0, once a run without
  \<open>open\<close> events has seen at least \<open>MAX_RECONNECT_ATTEMPTS\<close> \<open>close\<close> events, exactly that
  many timeouts have been created, and no run without \<open>open\<close> events that follows
  creates another: the handle counter stands still and the pending timeouts only
  shrink.
\<close>

theorem reconnect_bounded:
  assumes "isScheduleActive cfg"
  shows
  "(reconnectAttemptsRef s < MAX_RECONNECT_ATTEMPTS cfg \<longrightarrow>
      reconnectAttemptsRef (channel_step cfg s WsClose) = reconnectAttemptsRef s + 1 \<and>
      timers (channel_step cfg s WsClose) = timers s @ [(next_timer s, RECONNECT_INTERVAL cfg)] \<and>
      next_timer (channel_step cfg s WsClose) = next_timer s + 1) \<and>
   reconnectAttemptsRef (channel_step cfg s WsOpen) = 0 \<and>
   (WsOpen \<notin> set es \<and> reconnectAttemptsRef s = 0 \<and>
    MAX_RECONNECT_ATTEMPTS cfg \<le> count_list es WsClose \<longrightarrow>
      reconnectAttemptsRef (run_channel cfg es s) = MAX_RECONNECT_ATTEMPTS cfg \<and>
      next_timer (run_channel cfg es s) = next_timer s + MAX_RECONNECT_ATTEMPTS cfg \<and>
      (\<forall>es'. WsOpen \<notin> set es' \<longrightarrow>
         next_timer (run_channel cfg es' (run_channel cfg es s)) =
           next_timer (run_channel cfg es s) \<and>
         set (timers (run_channel cfg es' (run_channel cfg es s)))
           \<subseteq> set (timers (run_channel cfg es s))))"
proof (intro conjI impI)
  assume lt: "reconnectAttemptsRef s < MAX_RECONNECT_ATTEMPTS cfg"
  show "reconnectAttemptsRef (channel_step cfg s WsClose) = reconnectAttemptsRef s + 1"
    "timers (channel_step cfg s WsClose) = timers s @ [(next_timer s, RECONNECT_INTERVAL cfg)]"
    "next_timer (channel_step cfg s WsClose) = next_timer s + 1"
    using close_schedules [OF assms lt] by simp_all
next
  show "reconnectAttemptsRef (channel_step cfg s WsOpen) = 0" by (rule open_resets)
next
  assume h: "WsOpen \<notin> set es \<and> reconnectAttemptsRef s = 0 \<and>
    MAX_RECONNECT_ATTEMPTS cfg \<le> count_list es WsClose"
  then have no: "WsOpen \<notin> set es" and z: "reconnectAttemptsRef s = 0"
    and c: "MAX_RECONNECT_ATTEMPTS cfg \<le> count_list es WsClose" by simp_all
  have le: "reconnectAttemptsRef s \<le> MAX_RECONNECT_ATTEMPTS cfg" using z by simp
  have r: "reconnectAttemptsRef (run_channel cfg es s) = MAX_RECONNECT_ATTEMPTS cfg"
    and n: "next_timer (run_channel cfg es s) = next_timer s + MAX_RECONNECT_ATTEMPTS cfg"
    using run_counts [OF assms no le] z c by (simp_all add: min_def)
  show "reconnectAttemptsRef (run_channel cfg es s) = MAX_RECONNECT_ATTEMPTS cfg" by (rule r)
  show "next_timer (run_channel cfg es s) = next_timer s + MAX_RECONNECT_ATTEMPTS cfg" by (rule n)
  show "\<forall>es'. WsOpen \<notin> set es' \<longrightarrow>
         next_timer (run_channel cfg es' (run_channel cfg es s)) =
           next_timer (run_channel cfg es s) \<and>
         set (timers (run_channel cfg es' (run_channel cfg es s)))
           \<subseteq> set (timers (run_channel cfg es s))"
  proof (intro allI impI)
    fix es' assume no': "WsOpen \<notin> set es'"
    have cap: "MAX_RECONNECT_ATTEMPTS cfg \<le> reconnectAttemptsRef (run_channel cfg es s)"
      using r by simp
    show "next_timer (run_channel cfg es' (run_channel cfg es s)) =
           next_timer (run_channel cfg es s) \<and>
         set (timers (run_channel cfg es' (run_channel cfg es s)))
           \<subseteq> set (timers (run_channel cfg es s))"
      using run_at_cap [OF no' cap] by simp
  qed
qed

theorem reconnect_bounded_witness:
  "isScheduleActive \<lparr>isScheduleActive = True, MAX_RECONNECT_ATTEMPTS = 2, RECONNECT_INTERVAL = 5000\<rparr> \<and>
   timers (channel_step
      \<lparr>isScheduleActive = True, MAX_RECONNECT_ATTEMPTS = 2, RECONNECT_INTERVAL = 5000\<rparr>
      initial_channel WsClose) = [(1, 5000)] \<and>
   reconnectAttemptsRef (run_channel
      \<lparr>isScheduleActive = True, MAX_RECONNECT_ATTEMPTS = 2, RECONNECT_INTERVAL = 5000\<rparr>
      [EffectRun True, WsClose, ReconnectTimer 1 True, WsError, WsClose] initial_channel) = 2 \<and>
   next_timer (run_channel
      \<lparr>isScheduleActive = True, MAX_RECONNECT_ATTEMPTS = 2, RECONNECT_INTERVAL = 5000\<rparr>
      [ReconnectTimer 2 True, WsClose, WsClose]
      (run_channel
        \<lparr>isScheduleActive = True, MAX_RECONNECT_ATTEMPTS = 2, RECONNECT_INTERVAL = 5000\<rparr>
        [EffectRun True, WsClose, ReconnectTimer 1 True, WsError, WsClose] initial_channel)) = 3"
proof -
  let ?cfg = "\<lparr>isScheduleActive = True, MAX_RECONNECT_ATTEMPTS = 2, RECONNECT_INTERVAL = 5000\<rparr>"
  let ?es = "[EffectRun True, WsClose, ReconnectTimer 1 True, WsError, WsClose]"
  have a: "isScheduleActive ?cfg" by simp
  have i: "reconnectAttemptsRef initial_channel < MAX_RECONNECT_ATTEMPTS ?cfg"
    by (simp add: initial_channel_def)
  have h: "WsOpen \<notin> set ?es \<and> reconnectAttemptsRef initial_channel = 0 \<and>
    MAX_RECONNECT_ATTEMPTS ?cfg \<le> count_list ?es WsClose"
    by (simp add: initial_channel_def)
  have h': "WsOpen \<notin> set [ReconnectTimer 2 True, WsClose, WsClose]" by simp
  note t = reconnect_bounded [OF a, of initial_channel ?es]
  from t i have "timers (channel_step ?cfg initial_channel WsClose) = [(1, 5000)]"
    by (simp add: initial_channel_def)
  moreover from t h have "reconnectAttemptsRef (run_channel ?cfg ?es initial_channel) = 2"
    by simp
  moreover from t h h' have "next_timer (run_channel ?cfg [ReconnectTimer 2 True, WsClose, WsClose]
      (run_channel ?cfg ?es initial_channel)) = 3"
    by (simp add: initial_channel_def)
  ultimately show ?thesis using a by blast
qed

subsection \<open>The readiness flag\<close>

lemma serverReady_step:
  "serverReady (channel_step cfg s e) = (serverReady s \<or> e = WsOpen)"
  by (cases e) (auto simp: channel_step_def onopen_def onerror_def onmessage_def onclose_def
        navigateMedia_rendered_def setTimeout_def clearTimeout_def connect_def effect_run_def
        effect_cleanup_def Let_def split: option.splits)

lemma serverReady_run:
  "serverReady (run_channel cfg es s) = (serverReady s \<or> WsOpen \<in> set es)"
  by (induction es arbitrary: s) (auto simp: run_channel_def serverReady_step)

lemma allMedia_step:
  "\<forall>m. e \<noteq> WsMessage m \<Longrightarrow> allMedia (channel_step cfg s e) = allMedia s"
  by (cases e) (auto simp: channel_step_def onopen_def onerror_def onclose_def
        navigateMedia_rendered_def setTimeout_def clearTimeout_def connect_def effect_run_def
        effect_cleanup_def Let_def split: option.splits)

lemma no_open_no_media:
  "messages_after_open False es \<Longrightarrow> WsOpen \<notin> set es \<Longrightarrow>
   allMedia (run_channel cfg es s) = allMedia s"
proof (induction es arbitrary: s)
  case Nil
  then show ?case by (simp add: run_channel_def)
next
  case (Cons e es)
  then show ?case
    by (cases e) (simp_all add: run_channel_Cons allMedia_step)
qed

lemma messages_after_open_prefix:
  "messages_after_open b (es @ es') \<Longrightarrow> messages_after_open b es"
  by (induction b es rule: messages_after_open.induct) auto

text \<open>
  Claim C9, as amended. The exposed flag \<open>serverReady\<close> is true exactly when a socket of
  the hook has ever opened, whether or not data arrived on it, or items currently
  exist. It is sticky: in a run whose messages are delivered only after an \<open>open\<close>, once
  the flag is true it is true after every continuation of the run.
\<close>

theorem server_ready_sticky:
  "(res_serverReady (useLocalMediaManager_result (run_channel cfg es initial_channel)) \<longleftrightarrow>
      WsOpen \<in> set es \<or> allMedia (run_channel cfg es initial_channel) \<noteq> []) \<and>
   (messages_after_open False (es @ es') \<and>
    res_serverReady (useLocalMediaManager_result (run_channel cfg es initial_channel)) \<longrightarrow>
      res_serverReady
        (useLocalMediaManager_result (run_channel cfg (es @ es') initial_channel)))"
proof -
  have iff: "res_serverReady (useLocalMediaManager_result (run_channel cfg es initial_channel)) \<longleftrightarrow>
      WsOpen \<in> set es \<or> allMedia (run_channel cfg es initial_channel) \<noteq> []"
    by (simp add: useLocalMediaManager_result_def serverReady_run initial_channel_def)
  have "res_serverReady
        (useLocalMediaManager_result (run_channel cfg (es @ es') initial_channel))"
    if p: "messages_after_open False (es @ es')"
      and r: "res_serverReady (useLocalMediaManager_result (run_channel cfg es initial_channel))"
  proof -
    have "WsOpen \<in> set es"
    proof (rule ccontr)
      assume no: "WsOpen \<notin> set es"
      have "allMedia (run_channel cfg es initial_channel) = allMedia initial_channel"
        by (rule no_open_no_media [OF messages_after_open_prefix [OF p] no])
      then show False using r iff no by (simp add: initial_channel_def)
    qed
    then show ?thesis
      by (simp add: useLocalMediaManager_result_def serverReady_run)
  qed
  then show ?thesis using iff by blast
qed

theorem server_ready_sticky_witness:
  "res_serverReady (useLocalMediaManager_result (run_channel
      \<lparr>isScheduleActive = True, MAX_RECONNECT_ATTEMPTS = 0, RECONNECT_INTERVAL = 5000\<rparr>
      ([EffectRun True, WsOpen] @ [WsMessage (Some \<lparr>msg_type = ''mediaList'', media = []\<rparr>),
          WsError, WsClose]) initial_channel))"
proof -
  let ?cfg = "\<lparr>isScheduleActive = True, MAX_RECONNECT_ATTEMPTS = 0, RECONNECT_INTERVAL = 5000\<rparr>"
  let ?es' = "[WsMessage (Some \<lparr>msg_type = ''mediaList'', media = []\<rparr>), WsError, WsClose]"
  note t = server_ready_sticky [of ?cfg "[EffectRun True, WsOpen]" ?es']
  have p: "messages_after_open False ([EffectRun True, WsOpen] @ ?es')" by simp
  have "res_serverReady (useLocalMediaManager_result
          (run_channel ?cfg [EffectRun True, WsOpen] initial_channel))"
    using t by simp
  with t p show ?thesis by blast
qed

text \<open>
  The flag does not wait for data: after the first \<open>open\<close>, with no message received
  and no item held, it is already true.
\<close>

theorem server_ready_without_data_counterexample:
  "\<not> (res_serverReady (useLocalMediaManager_result (run_channel
         \<lparr>isScheduleActive = True, MAX_RECONNECT_ATTEMPTS = 3, RECONNECT_INTERVAL = 5000\<rparr>
         [EffectRun True, WsOpen] initial_channel)) \<longleftrightarrow>
       connected_with_data [EffectRun True, WsOpen] \<or>
       allMedia (run_channel
         \<lparr>isScheduleActive = True, MAX_RECONNECT_ATTEMPTS = 3, RECONNECT_INTERVAL = 5000\<rparr>
         [EffectRun True, WsOpen] initial_channel) \<noteq> [])"
  by (simp add: useLocalMediaManager_result_def run_channel_def channel_step_def
        effect_run_def connect_def onopen_def initial_channel_def)

section \<open>Properties of the folder listing\<close>

lemma fetch_loop_prefix:
  "fetch_loop n d i files = Some (Inr out) \<Longrightarrow> \<exists>rest. out = files @ rest"
proof (induction n arbitrary: i files)
  case 0
  then show ?case by simp
next
  case (Suc n)
  show ?case
  proof (cases "i < length files")
    case False
    then show ?thesis using Suc.prems by simp
  next
    case True
    show ?thesis
    proof (cases "mimeType (files ! i) = ''application/vnd.google-apps.folder''")
      case False
      then have "fetch_loop n d (Suc i) files = Some (Inr out)"
        using Suc.prems True by simp
      then show ?thesis by (rule Suc.IH)
    next
      case folder: True
      then obtain sub where "fetch_loop n d (Suc i) (files @ sub) = Some (Inr out)"
        using Suc.prems True by (auto split: option.splits sum.splits)
      then obtain rest where "out = (files @ sub) @ rest" using Suc.IH by blast
      then show ?thesis by simp
    qed
  qed
qed

lemma fetch_loop_step:
  assumes "fetch_loop n d j F = Some (Inr out)" "j < length F"
    "mimeType (F ! j) = ''application/vnd.google-apps.folder''"
  shows "\<exists>m sub. fetchFilesFromDrive m d (file_id (F ! j)) = Some (Inr sub) \<and>
           fetch_loop m d (Suc j) (F @ sub) = Some (Inr out)"
proof (cases n)
  case 0
  then show ?thesis using assms(1) by simp
next
  case (Suc m)
  then show ?thesis using assms by (auto split: option.splits sum.splits)
qed

lemma fetch_loop_reach:
  "fetch_loop n d i files = Some (Inr out) \<Longrightarrow> i \<le> j \<Longrightarrow> j < length out \<Longrightarrow>
   \<exists>m F r. fetch_loop m d j F = Some (Inr out) \<and> F = files @ r \<and> j < length F"
proof (induction n arbitrary: i files)
  case 0
  then show ?case by simp
next
  case (Suc n)
  have inside: "i < length files"
  proof (rule ccontr)
    assume "\<not> i < length files"
    then have "out = files" using Suc.prems(1) by simp
    then show False using Suc.prems(2,3) \<open>\<not> i < length files\<close> by simp
  qed
  show ?case
  proof (cases "i = j")
    case True
    then show ?thesis using Suc.prems(1) inside by fastforce
  next
    case False
    then have le: "Suc i \<le> j" using Suc.prems(2) by simp
    show ?thesis
    proof (cases "mimeType (files ! i) = ''application/vnd.google-apps.folder''")
      case False
      then have "fetch_loop n d (Suc i) files = Some (Inr out)"
        using Suc.prems(1) inside by simp
      from Suc.IH [OF this le Suc.prems(3)] show ?thesis .
    next
      case True
      then obtain sub where "fetch_loop n d (Suc i) (files @ sub) = Some (Inr out)"
        using Suc.prems(1) inside by (auto split: option.splits sum.splits)
      from Suc.IH [OF this le Suc.prems(3)] obtain m F r
        where "fetch_loop m d j F = Some (Inr out)" "F = (files @ sub) @ r" "j < length F"
        by blast
      then show ?thesis by fastforce
    qed
  qed
qed

lemma fetch_loop_folder:
  assumes "fetch_loop n d i files = Some (Inr out)" "i \<le> j" "j < length out"
    "mimeType (out ! j) = ''application/vnd.google-apps.folder''"
  shows "\<exists>m F r sub. F = files @ r \<and> j < length F \<and>
           fetchFilesFromDrive m d (file_id (out ! j)) = Some (Inr sub) \<and>
           fetch_loop m d (Suc j) (F @ sub) = Some (Inr out)"
proof -
  from fetch_loop_reach [OF assms(1-3)] obtain m F r
    where l: "fetch_loop m d j F = Some (Inr out)" and F: "F = files @ r" and j: "j < length F"
    by blast
  from fetch_loop_prefix [OF l] obtain rest where "out = F @ rest" by blast
  then have same: "out ! j = F ! j" using j by (simp add: nth_append)
  have "mimeType (F ! j) = ''application/vnd.google-apps.folder''"
    using assms(4) same by simp
  from fetch_loop_step [OF l j this] obtain m' sub
    where s: "fetchFilesFromDrive m' d (file_id (F ! j)) = Some (Inr sub)"
      and c: "fetch_loop m' d (Suc j) (F @ sub) = Some (Inr out)"
    by blast
  have "fetchFilesFromDrive m' d (file_id (out ! j)) = Some (Inr sub)"
    using s same by simp
  then show ?thesis using F j c by blast
qed

lemma fetchFilesFromDrive_Inr:
  assumes "fetchFilesFromDrive n d p = Some (Inr out)"
  shows "\<exists>m files. d p = Inr files \<and> fetch_loop m d 0 files = Some (Inr out)"
proof (cases n)
  case 0
  then show ?thesis using assms by simp
next
  case (Suc m)
  then show ?thesis using assms by (auto split: sum.splits)
qed

lemma fetch_contains_listing:
  assumes "fetchFilesFromDrive n d p = Some (Inr out)" "d p = Inr files"
  shows "\<exists>rest. out = files @ rest"
  using fetchFilesFromDrive_Inr [OF assms(1)] assms(2) fetch_loop_prefix by fastforce

lemma count_list_member: "x \<in> set xs \<Longrightarrow> 1 \<le> count_list xs x"
  by (induction xs) auto

lemma fetch_loop_child:
  assumes "fetch_loop n d 0 files = Some (Inr out)" "sub \<in> set files"
    "mimeType sub = ''application/vnd.google-apps.folder''"
  shows "\<exists>m j F r subFiles. F = files @ r \<and> j < length files \<and> files ! j = sub \<and>
           fetchFilesFromDrive m d (file_id sub) = Some (Inr subFiles) \<and>
           fetch_loop m d (Suc j) (F @ subFiles) = Some (Inr out)"
proof -
  from assms(2) obtain j where j: "j < length files" "files ! j = sub"
    by (auto simp: in_set_conv_nth)
  from fetch_loop_prefix [OF assms(1)] obtain rest where out: "out = files @ rest" by blast
  then have oj: "out ! j = sub" "j < length out" using j by (simp_all add: nth_append)
  from fetch_loop_folder [OF assms(1) _ oj(2)] oj(1) assms(3)
  obtain m F r subFiles where "F = files @ r" "j < length F"
    "fetchFilesFromDrive m d (file_id sub) = Some (Inr subFiles)"
    "fetch_loop m d (Suc j) (F @ subFiles) = Some (Inr out)"
    by auto
  then show ?thesis using j by blast
qed

text \<open>The result of a call holds the whole result of the call for each listed subfolder.\<close>

lemma fetch_includes_subfolder:
  assumes "fetchFilesFromDrive n d p = Some (Inr out)" "d p = Inr files" "sub \<in> set files"
    "mimeType sub = ''application/vnd.google-apps.folder''"
  shows "\<exists>m subFiles pre post. fetchFilesFromDrive m d (file_id sub) = Some (Inr subFiles) \<and>
           out = pre @ subFiles @ post"
proof -
  from fetchFilesFromDrive_Inr [OF assms(1)] assms(2) obtain m
    where l: "fetch_loop m d 0 files = Some (Inr out)" by auto
  from fetch_loop_child [OF l assms(3,4)] obtain m' j F r subFiles
    where s: "fetchFilesFromDrive m' d (file_id sub) = Some (Inr subFiles)"
      and c: "fetch_loop m' d (Suc j) (F @ subFiles) = Some (Inr out)"
    by blast
  from fetch_loop_prefix [OF c] obtain post where "out = (F @ subFiles) @ post" by blast
  then have "out = F @ subFiles @ post" by simp
  then show ?thesis using s by blast
qed

text \<open>A file two folders down is appended twice.\<close>

lemma fetch_two_levels:
  assumes out: "fetchFilesFromDrive n d p = Some (Inr out)"
    and p: "d p = Inr files" and A: "A \<in> set files"
    and fA: "mimeType A = ''application/vnd.google-apps.folder''"
    and dA: "d (file_id A) = Inr filesA" and B: "B \<in> set filesA"
    and fB: "mimeType B = ''application/vnd.google-apps.folder''"
    and dB: "d (file_id B) = Inr filesB" and f: "f \<in> set filesB"
  shows "2 \<le> count_list out f"
proof -
  have inB: "f \<in> set subFiles" if "fetchFilesFromDrive m d (file_id B) = Some (Inr subFiles)"
    for m subFiles
    using fetch_contains_listing [OF that dB] f by auto
  from fetchFilesFromDrive_Inr [OF out] p obtain m
    where l: "fetch_loop m d 0 files = Some (Inr out)" by auto
  from fetch_loop_child [OF l A fA] obtain m1 a F1 r1 subA
    where F1: "F1 = files @ r1" and a: "a < length files"
      and sA: "fetchFilesFromDrive m1 d (file_id A) = Some (Inr subA)"
      and c1: "fetch_loop m1 d (Suc a) (F1 @ subA) = Some (Inr out)"
    by blast
  from fetchFilesFromDrive_Inr [OF sA] dA obtain m2
    where lA: "fetch_loop m2 d 0 filesA = Some (Inr subA)" by auto
  from fetch_loop_child [OF lA B fB] obtain m3 b F2 r2 subB
    where b: "b < length filesA" "filesA ! b = B"
      and sB: "fetchFilesFromDrive m3 d (file_id B) = Some (Inr subB)"
      and c2: "fetch_loop m3 d (Suc b) (F2 @ subB) = Some (Inr subA)"
    by blast
  from fetch_loop_prefix [OF c2] obtain post2 where "subA = (F2 @ subB) @ post2" by blast
  then have fsubA: "f \<in> set subA" using inB [OF sB] by simp
  from fetch_loop_prefix [OF lA] obtain restA where subA: "subA = filesA @ restA" by blast
  then have Bat: "subA ! b = B" "b < length subA" using b by (simp_all add: nth_append)
  from fetch_loop_prefix [OF c1] obtain post1 where o1: "out = (F1 @ subA) @ post1" by blast
  let ?j = "length F1 + b"
  have j1: "Suc a \<le> ?j" using a F1 by simp
  have j2: "?j < length out" using o1 Bat(2) by simp
  have j3: "out ! ?j = B" using o1 Bat by (simp add: nth_append)
  from fetch_loop_folder [OF c1 j1 j2] j3 fB obtain m4 F3 r3 subB'
    where F3: "F3 = (F1 @ subA) @ r3"
      and sB': "fetchFilesFromDrive m4 d (file_id B) = Some (Inr subB')"
      and c3: "fetch_loop m4 d (Suc ?j) (F3 @ subB') = Some (Inr out)"
    by auto
  from fetch_loop_prefix [OF c3] obtain post3 where "out = (F3 @ subB') @ post3" by blast
  then have "out = F1 @ subA @ r3 @ subB' @ post3" using F3 by simp
  then have "count_list out f \<ge> count_list subA f + count_list subB' f" by simp
  moreover have "1 \<le> count_list subA f" using fsubA by (rule count_list_member)
  moreover have "1 \<le> count_list subB' f" using inB [OF sB'] by (rule count_list_member)
  ultimately show ?thesis by linarith
qed

lemma fetch_nested_twice:
  "fetchFilesFromDrive n d p = Some (Inr out) \<Longrightarrow> nested_in d p subs f \<Longrightarrow>
   2 \<le> length subs \<Longrightarrow> 2 \<le> count_list out f"
proof (induction subs arbitrary: n p out)
  case Nil
  then show ?case by simp
next
  case (Cons A subs)
  from Cons.prems(2) obtain files where p: "d p = Inr files" and A: "A \<in> set files"
    and fA: "mimeType A = ''application/vnd.google-apps.folder''"
    and rest: "nested_in d (file_id A) subs f"
    by (auto split: sum.splits)
  show ?case
  proof (cases "2 \<le> length subs")
    case True
    from fetch_includes_subfolder [OF Cons.prems(1) p A fA] obtain m subFiles pre post
      where s: "fetchFilesFromDrive m d (file_id A) = Some (Inr subFiles)"
        and o: "out = pre @ subFiles @ post" by blast
    from Cons.IH [OF s rest True] have "2 \<le> count_list subFiles f" .
    then show ?thesis using o by simp
  next
    case False
    then have "length subs = Suc 0" using Cons.prems(3) by simp
    then obtain B where subs: "subs = [B]" by (auto simp: length_Suc_conv)
    from rest subs obtain filesA filesB where "d (file_id A) = Inr filesA" "B \<in> set filesA"
      "mimeType B = ''application/vnd.google-apps.folder''"
      "d (file_id B) = Inr filesB" "f \<in> set filesB"
      by (auto split: sum.splits)
    from fetch_two_levels [OF Cons.prems(1) p A fA this] show ?thesis .
  qed
qed

lemma distinct_count_list: "distinct xs \<Longrightarrow> count_list xs x \<le> 1"
  by (induction xs) auto

lemma count_list_filter: "count_list (filter P xs) x = (if P x then count_list xs x else 0)"
  by (induction xs) auto

subsection \<open>Enough fuel\<close>

lemma fuel_Suc:
  "(\<forall>p r. fetchFilesFromDrive n d p = Some r \<longrightarrow> fetchFilesFromDrive (Suc n) d p = Some r) \<and>
   (\<forall>i files r. fetch_loop n d i files = Some r \<longrightarrow> fetch_loop (Suc n) d i files = Some r)"
proof (induction n)
  case 0
  then show ?case by simp
next
  case (Suc n)
  then have f: "\<And>p r. fetchFilesFromDrive n d p = Some r \<Longrightarrow>
      fetchFilesFromDrive (Suc n) d p = Some r"
    and l: "\<And>i files r. fetch_loop n d i files = Some r \<Longrightarrow>
      fetch_loop (Suc n) d i files = Some r"
    by blast+
  have "fetchFilesFromDrive (Suc (Suc n)) d p = Some r"
    if "fetchFilesFromDrive (Suc n) d p = Some r" for p r
  proof (cases "d p")
    case (Inl e)
    with that have r: "r = Inl e" by simp
    show ?thesis unfolding r using Inl by simp
  next
    case (Inr files)
    then have "fetch_loop n d 0 files = Some r" using that by simp
    from l [OF this] Inr show ?thesis by simp
  qed
  moreover have "fetch_loop (Suc (Suc n)) d i files = Some r"
    if a: "fetch_loop (Suc n) d i files = Some r" for i files r
  proof (cases "i < length files")
    case False
    then show ?thesis using a by simp
  next
    case True
    show ?thesis
    proof (cases "mimeType (files ! i) = ''application/vnd.google-apps.folder''")
      case False
      then have "fetch_loop n d (Suc i) files = Some r" using a True by simp
      from l [OF this] False True show ?thesis by simp
    next
      case folder: True
      have here: "fetch_loop (Suc n) d i files =
          (case fetchFilesFromDrive n d (file_id (files ! i)) of
             None \<Rightarrow> None
           | Some (Inl e) \<Rightarrow> Some (Inl e)
           | Some (Inr sub) \<Rightarrow> fetch_loop n d (Suc i) (files @ sub))"
        using True folder by (simp del: fetchFilesFromDrive.simps)
      have later: "fetch_loop (Suc (Suc n)) d i files =
          (case fetchFilesFromDrive (Suc n) d (file_id (files ! i)) of
             None \<Rightarrow> None
           | Some (Inl e) \<Rightarrow> Some (Inl e)
           | Some (Inr sub) \<Rightarrow> fetch_loop (Suc n) d (Suc i) (files @ sub))"
        using True folder by (simp del: fetchFilesFromDrive.simps)
      show ?thesis
      proof (cases "fetchFilesFromDrive n d (file_id (files ! i))")
        case None
        then show ?thesis using a here by simp
      next
        case (Some x)
        note fx = f [OF Some]
        show ?thesis
        proof (cases x)
          case (Inl e)
          have "r = Inl e" using a here Some Inl by simp
          then show ?thesis unfolding later fx using Inl by simp
        next
          case (Inr sub)
          then have "fetch_loop n d (Suc i) (files @ sub) = Some r"
            using a here Some by simp
          from l [OF this] show ?thesis unfolding later fx using Inr by simp
        qed
      qed
    qed
  qed
  ultimately show ?case by blast
qed

lemma fuel_mono:
  assumes "n \<le> m"
  shows "fetchFilesFromDrive n d p = Some r \<Longrightarrow> fetchFilesFromDrive m d p = Some r"
    and "fetch_loop n d i files = Some r \<Longrightarrow> fetch_loop m d i files = Some r"
  using assms
proof (induction m)
  case 0
  { case 1 then show ?case by simp }
  { case 2 then show ?case by simp }
next
  case (Suc m)
  { case 1
    then show ?case
    proof (cases "n = Suc m")
      case True
      then show ?thesis using 1 by simp
    next
      case False
      then have "n \<le> m" using 1(2) by simp
      from Suc(1) [OF 1(1) this] fuel_Suc [of m d] show ?thesis by blast
    qed }
  { case 2
    then show ?case
    proof (cases "n = Suc m")
      case True
      then show ?thesis using 2 by simp
    next
      case False
      then have "n \<le> m" using 2(2) by simp
      from Suc(2) [OF 2(1) this] fuel_Suc [of m d] show ?thesis by blast
    qed }
qed

lemma fetch_loop_no_folders:
  "\<forall>j. i \<le> j \<and> j < length F \<longrightarrow> mimeType (F ! j) \<noteq> ''application/vnd.google-apps.folder'' \<Longrightarrow>
   fetch_loop (Suc (length F - i)) d i F = Some (Inr F)"
proof (induction "length F - i" arbitrary: i)
  case 0
  then show ?case by simp
next
  case (Suc k)
  then have i: "i < length F" and k: "k = length F - Suc i" by simp_all
  have nf: "mimeType (F ! i) \<noteq> ''application/vnd.google-apps.folder''"
    using Suc.prems i by simp
  have rest: "\<forall>j. Suc i \<le> j \<and> j < length F \<longrightarrow>
      mimeType (F ! j) \<noteq> ''application/vnd.google-apps.folder''"
    using Suc.prems by simp
  from Suc.hyps(1) [OF k rest] have "fetch_loop (Suc (length F - Suc i)) d (Suc i) F = Some (Inr F)" .
  moreover have "Suc (length F - i) = Suc (Suc (length F - Suc i))" using i by simp
  ultimately show ?case using i nf by simp
qed

lemma fetch_loop_returns:
  assumes "ranked_drive d rank"
  shows "(\<forall>j. i \<le> j \<and> j < length F \<and> mimeType (F ! j) = ''application/vnd.google-apps.folder''
            \<longrightarrow> rank (file_id (F ! j)) < r) \<Longrightarrow>
         \<exists>n rest. fetch_loop n d i F = Some (Inr (F @ rest)) \<and>
           (\<forall>x \<in> set rest. mimeType x = ''application/vnd.google-apps.folder''
              \<longrightarrow> rank (file_id x) < r)"
proof (induction r arbitrary: i F)
  case 0
  then have "\<forall>j. i \<le> j \<and> j < length F \<longrightarrow>
      mimeType (F ! j) \<noteq> ''application/vnd.google-apps.folder''" by auto
  from fetch_loop_no_folders [OF this, of d] show ?case
    by (intro exI [of _ "Suc (length F - i)"] exI [of _ "[]"]) simp
next
  case (Suc r)
  have listing: "\<exists>files. d p = Inr files" for p
    using assms by (simp add: ranked_drive_def)
  have smaller: "rank (file_id x) < rank p"
    if "d p = Inr files" "x \<in> set files" "mimeType x = ''application/vnd.google-apps.folder''"
    for p files x
    using assms that by (simp add: ranked_drive_def)
  have B: "\<exists>n out. fetchFilesFromDrive n d p = Some (Inr out) \<and>
      (\<forall>y \<in> set out. mimeType y = ''application/vnd.google-apps.folder''
          \<longrightarrow> rank (file_id y) < r)"
    if p: "rank p \<le> r" for p
  proof -
    from listing obtain files where files: "d p = Inr files" by blast
    have low: "\<forall>y \<in> set files. mimeType y = ''application/vnd.google-apps.folder''
        \<longrightarrow> rank (file_id y) < r"
      using smaller [OF files] p by fastforce
    then have "\<forall>j. 0 \<le> j \<and> j < length files \<and>
        mimeType (files ! j) = ''application/vnd.google-apps.folder''
        \<longrightarrow> rank (file_id (files ! j)) < r" by simp
    from Suc.IH [OF this] obtain n rest
      where l: "fetch_loop n d 0 files = Some (Inr (files @ rest))"
        and rest: "\<forall>x \<in> set rest. mimeType x = ''application/vnd.google-apps.folder''
              \<longrightarrow> rank (file_id x) < r"
      by blast
    have "fetchFilesFromDrive (Suc n) d p = Some (Inr (files @ rest))"
      using files l by simp
    then show ?thesis using low rest by (intro exI [of _ "Suc n"] exI [of _ "files @ rest"]) auto
  qed
  have W: "\<exists>n rest. fetch_loop n d i (G @ S) = Some (Inr (G @ S @ rest)) \<and>
      (\<forall>x \<in> set rest. mimeType x = ''application/vnd.google-apps.folder''
          \<longrightarrow> rank (file_id x) < r)"
    if "length G - i = k" "i \<le> length G"
      "\<forall>j. i \<le> j \<and> j < length G \<and> mimeType (G ! j) = ''application/vnd.google-apps.folder''
          \<longrightarrow> rank (file_id (G ! j)) < Suc r"
      "\<forall>x \<in> set S. mimeType x = ''application/vnd.google-apps.folder''
          \<longrightarrow> rank (file_id x) < r"
    for k i G S
    using that
  proof (induction k arbitrary: i S)
    case 0
    then have i: "i = length G" by simp
    have "\<forall>j. i \<le> j \<and> j < length (G @ S) \<and>
        mimeType ((G @ S) ! j) = ''application/vnd.google-apps.folder''
        \<longrightarrow> rank (file_id ((G @ S) ! j)) < r"
      using 0(4) i by (auto simp: nth_append)
    from Suc.IH [OF this] show ?case by simp
  next
    case (Suc k)
    then have i: "i < length G" and k: "length G - Suc i = k" and le: "Suc i \<le> length G"
      by simp_all
    have at: "(G @ S) ! i = G ! i" "i < length (G @ S)" using i by (simp_all add: nth_append)
    have later: "\<forall>j. Suc i \<le> j \<and> j < length G \<and>
        mimeType (G ! j) = ''application/vnd.google-apps.folder''
        \<longrightarrow> rank (file_id (G ! j)) < Suc r"
      using Suc.prems(3) by simp
    show ?case
    proof (cases "mimeType (G ! i) = ''application/vnd.google-apps.folder''")
      case False
      from Suc.IH [OF k le later Suc.prems(4)] obtain n rest
        where l: "fetch_loop n d (Suc i) (G @ S) = Some (Inr (G @ S @ rest))"
          and rest: "\<forall>x \<in> set rest. mimeType x = ''application/vnd.google-apps.folder''
              \<longrightarrow> rank (file_id x) < r"
        by blast
      have "fetch_loop (Suc n) d i (G @ S) = Some (Inr (G @ S @ rest))"
        using at False l by simp
      then show ?thesis using rest by blast
    next
      case True
      then have "rank (file_id (G ! i)) \<le> r" using Suc.prems(3) i by fastforce
      from B [OF this] obtain m sub
        where s: "fetchFilesFromDrive m d (file_id (G ! i)) = Some (Inr sub)"
          and sub: "\<forall>y \<in> set sub. mimeType y = ''application/vnd.google-apps.folder''
              \<longrightarrow> rank (file_id y) < r"
        by blast
      have S': "\<forall>x \<in> set (S @ sub). mimeType x = ''application/vnd.google-apps.folder''
          \<longrightarrow> rank (file_id x) < r"
        using Suc.prems(4) sub by auto
      from Suc.IH [OF k le later S'] obtain n rest
        where l: "fetch_loop n d (Suc i) (G @ S @ sub) = Some (Inr (G @ (S @ sub) @ rest))"
          and rest: "\<forall>x \<in> set rest. mimeType x = ''application/vnd.google-apps.folder''
              \<longrightarrow> rank (file_id x) < r"
        by auto
      let ?N = "max m n"
      have s': "fetchFilesFromDrive ?N d (file_id (G ! i)) = Some (Inr sub)"
        by (rule fuel_mono(1) [OF _ s]) simp
      have l': "fetch_loop ?N d (Suc i) ((G @ S) @ sub) = Some (Inr (G @ S @ sub @ rest))"
        using fuel_mono(2) [OF _ l, of ?N] by simp
      have "fetch_loop (Suc ?N) d i (G @ S) = Some (Inr (G @ S @ sub @ rest))"
        using at True s' l' by (simp del: fetchFilesFromDrive.simps)
      moreover have "\<forall>x \<in> set (sub @ rest). mimeType x = ''application/vnd.google-apps.folder''
          \<longrightarrow> rank (file_id x) < r"
        using sub rest by auto
      ultimately show ?thesis
        by (intro exI [of _ "Suc ?N"] exI [of _ "sub @ rest"]) simp
    qed
  qed
  show ?case
  proof (cases "i \<le> length F")
    case True
    from W [OF refl True Suc.prems, of "[]"] obtain n rest
      where "fetch_loop n d i F = Some (Inr (F @ rest))"
        "\<forall>x \<in> set rest. mimeType x = ''application/vnd.google-apps.folder''
            \<longrightarrow> rank (file_id x) < r"
      by auto
    then show ?thesis by (intro exI [of _ n] exI [of _ rest]) auto
  next
    case False
    then have "fetch_loop (Suc 0) d i F = Some (Inr F)" by simp
    then show ?thesis by (intro exI [of _ "Suc 0"] exI [of _ "[]"]) simp
  qed
qed

text \<open>On such a drive every call returns a list, given enough fuel.\<close>

lemma fetchFilesFromDrive_returns:
  assumes "ranked_drive d rank"
  shows "\<exists>n out. fetchFilesFromDrive n d p = Some (Inr out)"
proof -
  from assms have "\<exists>files. d p = Inr files" by (simp add: ranked_drive_def)
  then obtain files where files: "d p = Inr files" by blast
  have "\<forall>j. 0 \<le> j \<and> j < length files \<and>
      mimeType (files ! j) = ''application/vnd.google-apps.folder''
      \<longrightarrow> rank (file_id (files ! j)) < rank p"
    using assms files by (simp add: ranked_drive_def)
  from fetch_loop_returns [OF assms this] obtain n rest
    where "fetch_loop n d 0 files = Some (Inr (files @ rest))" by blast
  then have "fetchFilesFromDrive (Suc n) d p = Some (Inr (files @ rest))"
    using files by simp
  then show ?thesis by blast
qed

text \<open>
  Claim C10. Whenever a file lies in a subfolder nested two or more levels below the
  folder \<open>fetchFilesFromDrive\<close> is called on, every list the call returns holds the
  record of that file at least twice, so the list is not duplicate-free; \<open>listFiles\<close>
  returns that list filtered, and when the name of the file is valid the list of
  \<open>listFiles\<close> holds the record at least twice as well. On a drive whose listings all
  succeed and whose folders are nested to a finite depth the call does return such a
  list.
\<close>

theorem fetch_duplicates:
  assumes "nested_in d p subs f" "2 \<le> length subs"
  shows "(\<forall>n out. fetchFilesFromDrive n d p = Some (Inr out) \<longrightarrow>
       2 \<le> count_list out f \<and> \<not> distinct out \<and>
       listFiles n isValid d p = Some (Inr (filter (\<lambda>file. isValid (file_name file)) out)) \<and>
       (isValid (file_name f) \<longrightarrow>
          2 \<le> count_list (filter (\<lambda>file. isValid (file_name file)) out) f \<and>
          \<not> distinct (filter (\<lambda>file. isValid (file_name file)) out))) \<and>
    (ranked_drive d rank \<longrightarrow>
       (\<exists>n out. fetchFilesFromDrive n d p = Some (Inr out) \<and> 2 \<le> count_list out f))"
proof -
  have nd: "\<not> distinct xs" if "2 \<le> count_list xs f" for xs
    using that distinct_count_list [of xs f] by auto
  have main: "2 \<le> count_list out f \<and> \<not> distinct out \<and>
       listFiles n isValid d p = Some (Inr (filter (\<lambda>file. isValid (file_name file)) out)) \<and>
       (isValid (file_name f) \<longrightarrow>
          2 \<le> count_list (filter (\<lambda>file. isValid (file_name file)) out) f \<and>
          \<not> distinct (filter (\<lambda>file. isValid (file_name file)) out))"
    if r: "fetchFilesFromDrive n d p = Some (Inr out)" for n out
  proof -
    have c: "2 \<le> count_list out f" by (rule fetch_nested_twice [OF r assms])
    have l: "listFiles n isValid d p = Some (Inr (filter (\<lambda>file. isValid (file_name file)) out))"
      using r by (simp add: listFiles_def)
    have v: "2 \<le> count_list (filter (\<lambda>file. isValid (file_name file)) out) f"
      if "isValid (file_name f)"
      using that c by (simp add: count_list_filter)
    show ?thesis using c nd [OF c] l v nd by blast
  qed
  have "\<exists>n out. fetchFilesFromDrive n d p = Some (Inr out) \<and> 2 \<le> count_list out f"
    if "ranked_drive d rank"
  proof -
    from fetchFilesFromDrive_returns [OF that] obtain n out
      where r: "fetchFilesFromDrive n d p = Some (Inr out)" by blast
    from main [OF r] r show ?thesis by blast
  qed
  then show ?thesis using main by blast
qed

theorem fetch_duplicates_witness:
  "fetchFilesFromDrive 7
     (\<lambda>x. if x = ''root'' then Inr [\<lparr>file_id = ''A'', file_name = ''A'', mimeType = ''application/vnd.google-apps.folder'', parents = [''root'']\<rparr>]
          else if x = ''A'' then Inr [\<lparr>file_id = ''B'', file_name = ''B'', mimeType = ''application/vnd.google-apps.folder'', parents = [''A'']\<rparr>]
          else if x = ''B'' then Inr [\<lparr>file_id = ''f'', file_name = ''f.jpg'', mimeType = ''image/jpeg'', parents = [''B'']\<rparr>]
          else Inr []) ''root'' =
     Some (Inr [\<lparr>file_id = ''A'', file_name = ''A'', mimeType = ''application/vnd.google-apps.folder'', parents = [''root'']\<rparr>,
                \<lparr>file_id = ''B'', file_name = ''B'', mimeType = ''application/vnd.google-apps.folder'', parents = [''A'']\<rparr>,
                \<lparr>file_id = ''f'', file_name = ''f.jpg'', mimeType = ''image/jpeg'', parents = [''B'']\<rparr>,
                \<lparr>file_id = ''f'', file_name = ''f.jpg'', mimeType = ''image/jpeg'', parents = [''B'']\<rparr>]) \<and>
   2 \<le> count_list
     [\<lparr>file_id = ''A'', file_name = ''A'', mimeType = ''application/vnd.google-apps.folder'', parents = [''root'']\<rparr>,
      \<lparr>file_id = ''B'', file_name = ''B'', mimeType = ''application/vnd.google-apps.folder'', parents = [''A'']\<rparr>,
      \<lparr>file_id = ''f'', file_name = ''f.jpg'', mimeType = ''image/jpeg'', parents = [''B'']\<rparr>,
      \<lparr>file_id = ''f'', file_name = ''f.jpg'', mimeType = ''image/jpeg'', parents = [''B'']\<rparr>]
     \<lparr>file_id = ''f'', file_name = ''f.jpg'', mimeType = ''image/jpeg'', parents = [''B'']\<rparr> \<and>
   \<not> distinct (filter (\<lambda>file. file_name file = ''f.jpg'')
     [\<lparr>file_id = ''A'', file_name = ''A'', mimeType = ''application/vnd.google-apps.folder'', parents = [''root'']\<rparr>,
      \<lparr>file_id = ''B'', file_name = ''B'', mimeType = ''application/vnd.google-apps.folder'', parents = [''A'']\<rparr>,
      \<lparr>file_id = ''f'', file_name = ''f.jpg'', mimeType = ''image/jpeg'', parents = [''B'']\<rparr>,
      \<lparr>file_id = ''f'', file_name = ''f.jpg'', mimeType = ''image/jpeg'', parents = [''B'']\<rparr>]) \<and>
   (\<exists>n out. fetchFilesFromDrive n
     (\<lambda>x. if x = ''root'' then Inr [\<lparr>file_id = ''A'', file_name = ''A'', mimeType = ''application/vnd.google-apps.folder'', parents = [''root'']\<rparr>]
          else if x = ''A'' then Inr [\<lparr>file_id = ''B'', file_name = ''B'', mimeType = ''application/vnd.google-apps.folder'', parents = [''A'']\<rparr>]
          else if x = ''B'' then Inr [\<lparr>file_id = ''f'', file_name = ''f.jpg'', mimeType = ''image/jpeg'', parents = [''B'']\<rparr>]
          else Inr []) ''root'' = Some (Inr out) \<and>
     2 \<le> count_list out
       \<lparr>file_id = ''f'', file_name = ''f.jpg'', mimeType = ''image/jpeg'', parents = [''B'']\<rparr>)"
proof -
  let ?A = "\<lparr>file_id = ''A'', file_name = ''A'', mimeType = ''application/vnd.google-apps.folder'', parents = [''root'']\<rparr>"
  let ?B = "\<lparr>file_id = ''B'', file_name = ''B'', mimeType = ''application/vnd.google-apps.folder'', parents = [''A'']\<rparr>"
  let ?f = "\<lparr>file_id = ''f'', file_name = ''f.jpg'', mimeType = ''image/jpeg'', parents = [''B'']\<rparr>"
  let ?d = "\<lambda>x. if x = ''root'' then Inr [?A] else if x = ''A'' then Inr [?B]
              else if x = ''B'' then Inr [?f] else Inr []"
  let ?rank = "\<lambda>x. if x = ''root'' then 3 else if x = ''A'' then 2
              else if x = ''B'' then 1 else (0::nat)"
  have r: "fetchFilesFromDrive 7 ?d ''root'' = Some (Inr [?A, ?B, ?f, ?f])"
    by (simp add: eval_nat_numeral)
  have n: "nested_in ?d ''root'' [?A, ?B] ?f" by simp
  have l: "2 \<le> length [?A, ?B]" by simp
  have k: "ranked_drive ?d ?rank"
    by (auto simp: ranked_drive_def split: if_splits)
  note t = fetch_duplicates [OF n l, of "\<lambda>n. n = ''f.jpg''" ?rank]
  from t r have "2 \<le> count_list [?A, ?B, ?f, ?f] ?f \<and>
      \<not> distinct (filter (\<lambda>file. file_name file = ''f.jpg'') [?A, ?B, ?f, ?f])"
    by simp
  moreover from t k have "\<exists>n out. fetchFilesFromDrive n ?d ''root'' = Some (Inr out) \<and>
     2 \<le> count_list out ?f" by blast
  ultimately show ?thesis using r by blast
qed

section \<open>Properties of the mirror job\<close>

lemma after_simps [simp]: "fst (after evs r) = fst r" "snd (after evs r) = evs @ snd r"
  by (simp_all add: after_def)

lemma after_eq: "after evs r = (l, t) \<longleftrightarrow> fst r = l \<and> evs @ snd r = t"
  by (cases r) (auto simp: after_def)

subsection \<open>Paths\<close>








subsection \<open>The download loop\<close>

lemma download_loop_returns:
  "\<forall>file \<in> set files. downloadFile (download_of env file) \<noteq> Pending \<Longrightarrow>
   \<exists>fs' effs. download_loop env files fs = Some (fs', effs)"
proof (induction files arbitrary: fs)
  case Nil
  then show ?case by simp
next
  case (Cons g gs)
  then have IH: "\<And>l. \<exists>fs' effs. download_loop env gs l = Some (fs', effs)" by simp
  show ?case
  proof (cases "downloadFile (download_of env g)")
    case Pending
    then show ?thesis using Cons.prems by simp
  next
    case Resolved
    then show ?thesis
      using IH [of fs] IH [of "create_file (path_join (downloadPath env) (file_name g)) fs"]
      by auto
  next
    case (Rejected e)
    then show ?thesis
      using IH [of fs] IH [of "create_file (path_join (downloadPath env) (file_name g)) fs"]
      by auto
  qed
qed

text \<open>
  One turn of the loop for a file whose path does not exist: the download is
  resolved or rejected, it is logged accordingly, and at most its path is new.
\<close>

lemma download_loop_attempt:
  assumes "download_loop env (g # gs) fs = Some (fs', effs)"
    "\<not> pathExists fs (path_join (downloadPath env) (file_name g))"
  shows "\<exists>l evs t. download_loop env gs l = Some (fs', t) \<and> effs = evs @ t \<and>
           (l = fs \<or> l = create_file (path_join (downloadPath env) (file_name g)) fs) \<and>
           ((downloadFile (download_of env g) = Resolved \<and>
             l = create_file (path_join (downloadPath env) (file_name g)) fs \<and>
             evs = [Download (file_id g) (file_name g), Log (Info_downloaded (file_name g))]) \<or>
            ((\<exists>e. downloadFile (download_of env g) = Rejected e) \<and>
             evs = [Download (file_id g) (file_name g), Log (Warn_download_failed (file_name g))]))"
proof (cases "downloadFile (download_of env g)")
  case Pending
  then show ?thesis using assms by simp
next
  case Resolved
  let ?l = "create_file (path_join (downloadPath env) (file_name g)) fs"
  from Resolved obtain r where r: "download_loop env gs ?l = Some r"
    and e: "after [Download (file_id g) (file_name g), Log (Info_downloaded (file_name g))] r
              = (fs', effs)"
    using assms by auto
  have "download_loop env gs ?l = Some (fs', snd r)"
    using r e by (cases r) (simp add: after_def)
  moreover have "effs = [Download (file_id g) (file_name g),
      Log (Info_downloaded (file_name g))] @ snd r"
    using e by (cases r) (simp add: after_def)
  ultimately show ?thesis using Resolved
    by (intro exI [of _ ?l] exI [of _ "snd r"]
          exI [of _ "[Download (file_id g) (file_name g), Log (Info_downloaded (file_name g))]"])
       simp
next
  case (Rejected err)
  let ?l = "if get_result (download_of env g) = None \<and> file_created (download_of env g)
            then create_file (path_join (downloadPath env) (file_name g)) fs else fs"
  from Rejected obtain r where r: "download_loop env gs ?l = Some r"
    and e: "after [Download (file_id g) (file_name g), Log (Warn_download_failed (file_name g))] r
              = (fs', effs)"
    using assms by auto
  have "download_loop env gs ?l = Some (fs', snd r)"
    using r e by (cases r) (simp add: after_def)
  moreover have "effs = [Download (file_id g) (file_name g),
      Log (Warn_download_failed (file_name g))] @ snd r"
    using e by (cases r) (simp add: after_def)
  ultimately show ?thesis using Rejected
    by (intro exI [of _ ?l] exI [of _ "snd r"]
          exI [of _ "[Download (file_id g) (file_name g),
                      Log (Warn_download_failed (file_name g))]"])
       simp
qed

text \<open>
  The loop makes no request but downloads, each for a listed file and each followed
  by the line that logs its outcome.
\<close>

lemma download_loop_effects:
  "download_loop env files fs = Some (fs', effs) \<Longrightarrow>
   (\<forall>ev \<in> set effs. \<exists>file \<in> set files.
        ev = Download (file_id file) (file_name file) \<or>
        ev = Log (Info_downloaded (file_name file)) \<or>
        ev = Log (Warn_download_failed (file_name file))) \<and>
   (\<forall>i n. Download i n \<in> set effs \<longrightarrow>
        Log (Info_downloaded n) \<in> set effs \<or> Log (Warn_download_failed n) \<in> set effs)"
proof (induction files arbitrary: fs fs' effs)
  case Nil
  then show ?case by simp
next
  case (Cons g gs)
  show ?case
  proof (cases "pathExists fs (path_join (downloadPath env) (file_name g))")
    case True
    then have "download_loop env gs fs = Some (fs', effs)" using Cons.prems by simp
    from Cons.IH [OF this] show ?thesis by auto
  next
    case False
    from download_loop_attempt [OF Cons.prems False] obtain l evs t
      where r: "download_loop env gs l = Some (fs', t)" and e: "effs = evs @ t"
        and evs: "evs = [Download (file_id g) (file_name g), Log (Info_downloaded (file_name g))] \<or>
                  evs = [Download (file_id g) (file_name g), Log (Warn_download_failed (file_name g))]"
      by blast
    from Cons.IH [OF r] e evs show ?thesis by auto
  qed
qed



subsection \<open>The removal loop\<close>

text \<open>
  Each entry of the list without a listed file is asked to be removed, and the
  outcome is logged; the loop makes no other request.
\<close>

lemma remove_loop_effects:
  "remove_loop env files ls fs = (fs', effs) \<Longrightarrow>
   (\<forall>n \<in> set ls. \<not> list_ex (\<lambda>file. file_name file = n) files \<longrightarrow>
      Remove n \<in> set effs \<and>
      (if remove_result env n = None then Log (Info_removed n) \<in> set effs
       else Log (Warn_remove_failed n) \<in> set effs)) \<and>
   (\<forall>ev \<in> set effs. \<exists>n \<in> set ls. \<not> list_ex (\<lambda>file. file_name file = n) files \<and>
      (ev = Remove n \<or> ev = Log (Info_removed n) \<or> ev = Log (Warn_remove_failed n)))"
proof (induction ls arbitrary: fs fs' effs)
  case Nil
  then show ?case by simp
next
  case (Cons n ns)
  show ?case
  proof (cases "list_ex (\<lambda>file. file_name file = n) files")
    case True
    then have "remove_loop env files ns fs = (fs', effs)" using Cons.prems by simp
    from Cons.IH [OF this] True show ?thesis by auto
  next
    case False
    show ?thesis
    proof (cases "remove_result env n")
      case None
      let ?r = "remove_loop env files ns (remove_file (path_join (downloadPath env) n) fs)"
      have e: "fst ?r = fs'" "effs = [Remove n, Log (Info_removed n)] @ snd ?r"
        using Cons.prems False None by (auto simp: after_eq)
      have "remove_loop env files ns (remove_file (path_join (downloadPath env) n) fs)
          = (fst ?r, snd ?r)" by simp
      from Cons.IH [OF this] e False None show ?thesis by auto
    next
      case (Some err)
      let ?r = "remove_loop env files ns fs"
      have e: "fst ?r = fs'" "effs = [Remove n, Log (Warn_remove_failed n)] @ snd ?r"
        using Cons.prems False Some by (auto simp: after_eq)
      have "remove_loop env files ns fs = (fst ?r, snd ?r)" by simp
      from Cons.IH [OF this] e False Some show ?thesis by auto
    qed
  qed
qed


subsection \<open>One attempt\<close>

lemma sync_attempt_throws:
  assumes "sync_attempt env k local = Some (Inl e, l, t)"
  shows "l = local \<and> (t = [ListFiles] \<or> (\<exists>n. t = [ListFiles, Log (Info_found n), Readdir]))"
  using assms
  by (auto simp: sync_attempt_def split: option.splits sum.splits prod.splits)

lemma sync_attempt_throws_effects:
  assumes "sync_attempt env k local = Some (Inl e, l, t)"
  shows "l = local" "filter is_transfer t = []" "waits t = []" "count_list t ListFiles = 1"
    "\<forall>n. Log (Warn_download_failed n) \<notin> set t \<and> Log (Warn_remove_failed n) \<notin> set t"
  using sync_attempt_throws [OF assms] by auto

lemma sync_attempt_returns:
  assumes "sync_attempt env k local = Some (Inr files, l, t)"
  shows "\<exists>l1 t1 t2.
     listFiles (fuel env) (isValidFile env) (drive_at env k) (folderId env) = Some (Inr files) \<and>
     readdir_at env k = None \<and>
     download_loop env files local = Some (l1, t1) \<and>
     remove_loop env files (readdir local (downloadPath env)) l1 = (l, t2) \<and>
     t = [ListFiles, Log (Info_found (length files)), Readdir] @ t1 @ t2"
  using assms
  by (auto simp: sync_attempt_def split: option.splits sum.splits prod.splits)

lemma sync_attempt_runs:
  assumes "listFiles (fuel env) (isValidFile env) (drive_at env k) (folderId env) = Some (Inr files)"
    "readdir_at env k = None"
    "\<forall>file \<in> set files. downloadFile (download_of env file) \<noteq> Pending"
  shows "\<exists>l t. sync_attempt env k local = Some (Inr files, l, t)"
proof -
  from download_loop_returns [OF assms(3)] obtain l1 t1
    where "download_loop env files local = Some (l1, t1)" by blast
  then show ?thesis using assms(1,2)
    by (cases "remove_loop env files (readdir local (downloadPath env)) l1")
       (simp add: sync_attempt_def)
qed

subsection \<open>The retry loop\<close>

lemma sync_retry_2:
  "sync_retry env 2 local =
     (case sync_attempt env 2 local of
        None \<Rightarrow> None
      | Some (Inr files, l, t) \<Rightarrow> Some (Inr (Some files), l, t)
      | Some (Inl e, l, t) \<Rightarrow>
          Some (Inl e, l, t @ [Log (Warn_attempt_failed 3), Log Error_max_retries]))"
  by (subst sync_retry.simps) (simp add: MAX_RETRIES_def numeral_2_eq_2 numeral_3_eq_3 split: option.splits sum.splits)

lemma sync_retry_1:
  "sync_retry env (Suc 0) local =
     (case sync_attempt env (Suc 0) local of
        None \<Rightarrow> None
      | Some (Inr files, l, t) \<Rightarrow> Some (Inr (Some files), l, t)
      | Some (Inl e, l, t) \<Rightarrow>
          (case sync_retry env 2 l of
             None \<Rightarrow> None
           | Some (r, l', t') \<Rightarrow>
               Some (r, l', t @ [Log (Warn_attempt_failed 2), Wait 2000] @ t')))"
  by (subst sync_retry.simps) (simp add: MAX_RETRIES_def numeral_2_eq_2 numeral_3_eq_3 split: option.splits sum.splits)

lemma sync_retry_0:
  "sync_retry env 0 local =
     (case sync_attempt env 0 local of
        None \<Rightarrow> None
      | Some (Inr files, l, t) \<Rightarrow> Some (Inr (Some files), l, t)
      | Some (Inl e, l, t) \<Rightarrow>
          (case sync_retry env 1 l of
             None \<Rightarrow> None
           | Some (r, l', t') \<Rightarrow>
               Some (r, l', t @ [Log (Warn_attempt_failed 1), Wait 1000] @ t')))"
  by (subst sync_retry.simps) (simp add: MAX_RETRIES_def numeral_2_eq_2 numeral_3_eq_3 split: option.splits sum.splits)

subsection \<open>Effects of one attempt\<close>

lemma waits_append [simp]: "waits (xs @ ys) = waits xs @ waits ys"
  by (induction xs rule: waits.induct) simp_all

lemma waits_none: "\<forall>ev \<in> set t. \<forall>ms. ev \<noteq> Wait ms \<Longrightarrow> waits t = []"
  by (induction t rule: waits.induct) simp_all

lemma count_list_none: "x \<notin> set t \<Longrightarrow> count_list t x = 0"
  by (induction t) auto

lemma sync_attempt_returns_effects:
  assumes "sync_attempt env k local = Some (Inr files, l, t)"
  shows "count_list t ListFiles = 1" "waits t = []"
    "\<forall>n. Log (Warn_attempt_failed n) \<notin> set t"
proof -
  from sync_attempt_returns [OF assms] obtain l1 t1 t2
    where d: "download_loop env files local = Some (l1, t1)"
      and r: "remove_loop env files (readdir local (downloadPath env)) l1 = (l, t2)"
      and t: "t = [ListFiles, Log (Info_found (length files)), Readdir] @ t1 @ t2"
    by blast
  have t1: "\<forall>ev \<in> set t1. (\<forall>ms. ev \<noteq> Wait ms) \<and> ev \<noteq> ListFiles \<and>
              (\<forall>n. ev \<noteq> Log (Warn_attempt_failed n))"
    using download_loop_effects [OF d] by auto
  have t2: "\<forall>ev \<in> set t2. (\<forall>ms. ev \<noteq> Wait ms) \<and> ev \<noteq> ListFiles \<and>
              (\<forall>n. ev \<noteq> Log (Warn_attempt_failed n))"
    using remove_loop_effects [OF r] by auto
  have "ListFiles \<notin> set t1" "ListFiles \<notin> set t2" using t1 t2 by auto
  then show "count_list t ListFiles = 1" using t by (simp add: count_list_none)
  have "waits t1 = []" using t1 by (intro waits_none) blast
  moreover have "waits t2 = []" using t2 by (intro waits_none) blast
  ultimately have "waits t1 = []" "waits t2 = []" by simp_all
  then show "waits t = []" using t by simp
  show "\<forall>n. Log (Warn_attempt_failed n) \<notin> set t" using t t1 t2 by auto
qed

subsection \<open>The three attempts\<close>

lemma syncFiles_first:
  assumes "sync_attempt env 0 local = Some (Inr files, l, t)"
  shows "syncFiles env local = Some (Inr (Some files), l, t)"
  using assms by (simp add: syncFiles_def sync_retry_0)

lemma syncFiles_second:
  assumes "sync_attempt env 0 local = Some (Inl e0, l0, t0)"
    "sync_attempt env 1 local = Some (Inr files, l, t)"
  shows "syncFiles env local =
    Some (Inr (Some files), l, t0 @ [Log (Warn_attempt_failed 1), Wait 1000] @ t)"
  using assms sync_attempt_throws_effects(1) [OF assms(1)]
  by (simp add: syncFiles_def sync_retry_0 sync_retry_1)

lemma syncFiles_third:
  assumes "sync_attempt env 0 local = Some (Inl e0, l0, t0)"
    "sync_attempt env 1 local = Some (Inl e1, l1, t1)"
    "sync_attempt env 2 local = Some (Inr files, l, t)"
  shows "syncFiles env local =
    Some (Inr (Some files), l,
          t0 @ [Log (Warn_attempt_failed 1), Wait 1000] @
          t1 @ [Log (Warn_attempt_failed 2), Wait 2000] @ t)"
  using assms sync_attempt_throws_effects(1) [OF assms(1)]
    sync_attempt_throws_effects(1) [OF assms(2)]
  by (simp add: syncFiles_def sync_retry_0 sync_retry_1 sync_retry_2)

lemma syncFiles_exhausted:
  assumes "sync_attempt env 0 local = Some (Inl e0, l0, t0)"
    "sync_attempt env 1 local = Some (Inl e1, l1, t1)"
    "sync_attempt env 2 local = Some (Inl e2, l2, t2)"
  shows "syncFiles env local =
    Some (Inl e2, local,
          t0 @ [Log (Warn_attempt_failed 1), Wait 1000] @
          t1 @ [Log (Warn_attempt_failed 2), Wait 2000] @
          t2 @ [Log (Warn_attempt_failed 3), Log Error_max_retries])"
  using assms sync_attempt_throws_effects(1) [OF assms(1)]
    sync_attempt_throws_effects(1) [OF assms(2)] sync_attempt_throws_effects(1) [OF assms(3)]
  by (simp add: syncFiles_def sync_retry_0 sync_retry_1 sync_retry_2)

text \<open>Every way \<open>syncFiles\<close> returns is one of the four above.\<close>

lemma syncFiles_cases:
  assumes "syncFiles env local = Some (r, l, t)"
  obtains
    (first) files where "sync_attempt env 0 local = Some (Inr files, l, t)"
      "r = Inr (Some files)"
  | (second) e0 t0 files t' where "sync_attempt env 0 local = Some (Inl e0, local, t0)"
      "sync_attempt env 1 local = Some (Inr files, l, t')" "r = Inr (Some files)"
      "t = t0 @ [Log (Warn_attempt_failed 1), Wait 1000] @ t'"
  | (third) e0 t0 e1 t1 files t' where "sync_attempt env 0 local = Some (Inl e0, local, t0)"
      "sync_attempt env 1 local = Some (Inl e1, local, t1)"
      "sync_attempt env 2 local = Some (Inr files, l, t')" "r = Inr (Some files)"
      "t = t0 @ [Log (Warn_attempt_failed 1), Wait 1000] @
           t1 @ [Log (Warn_attempt_failed 2), Wait 2000] @ t'"
  | (exhausted) e0 t0 e1 t1 e2 t2 where "sync_attempt env 0 local = Some (Inl e0, local, t0)"
      "sync_attempt env 1 local = Some (Inl e1, local, t1)"
      "sync_attempt env 2 local = Some (Inl e2, local, t2)" "r = Inl e2" "l = local"
      "t = t0 @ [Log (Warn_attempt_failed 1), Wait 1000] @
           t1 @ [Log (Warn_attempt_failed 2), Wait 2000] @
           t2 @ [Log (Warn_attempt_failed 3), Log Error_max_retries]"
proof (cases "sync_attempt env 0 local")
  case None
  then show ?thesis using assms by (simp add: syncFiles_def sync_retry_0)
next
  case (Some a0)
  obtain r0 l0 t0 where a0: "a0 = (r0, l0, t0)" by (cases a0) auto
  show ?thesis
  proof (cases r0)
    case (Inr files)
    then show ?thesis using first assms Some a0 by (simp add: syncFiles_def sync_retry_0)
  next
    case (Inl e0)
    then have s0: "sync_attempt env 0 local = Some (Inl e0, l0, t0)" using Some a0 by simp
    have l0: "l0 = local" by (rule sync_attempt_throws_effects(1) [OF s0])
    show ?thesis
    proof (cases "sync_attempt env 1 local")
      case None
      then show ?thesis using assms s0 l0 by (simp add: syncFiles_def sync_retry_0 sync_retry_1)
    next
      case (Some a1)
      obtain r1 l1 t1 where a1: "a1 = (r1, l1, t1)" by (cases a1) auto
      show ?thesis
      proof (cases r1)
        case (Inr files)
        then have s1: "sync_attempt env 1 local = Some (Inr files, l1, t1)"
          using Some a1 by simp
        from syncFiles_second [OF s0 s1] assms second [of e0 t0 files t1] s0 s1 l0
        show ?thesis by simp
      next
        case (Inl e1)
        then have s1: "sync_attempt env 1 local = Some (Inl e1, l1, t1)"
          using Some a1 by simp
        have l1: "l1 = local" by (rule sync_attempt_throws_effects(1) [OF s1])
        show ?thesis
        proof (cases "sync_attempt env 2 local")
          case None
          then show ?thesis using assms s0 l0 s1 l1
            by (simp add: syncFiles_def sync_retry_0 sync_retry_1 sync_retry_2)
        next
          case (Some a2)
          obtain r2 l2 t2 where a2: "a2 = (r2, l2, t2)" by (cases a2) auto
          show ?thesis
          proof (cases r2)
            case (Inr files)
            then have s2: "sync_attempt env 2 local = Some (Inr files, l2, t2)"
              using Some a2 by simp
            from syncFiles_third [OF s0 s1 s2] assms third [of e0 t0 e1 t1 files t2] s0 s1 s2 l0 l1
            show ?thesis by simp
          next
            case (Inl e2)
            then have s2: "sync_attempt env 2 local = Some (Inl e2, l2, t2)"
              using Some a2 by simp
            have l2: "l2 = local" by (rule sync_attempt_throws_effects(1) [OF s2])
            from syncFiles_exhausted [OF s0 s1 s2] assms exhausted [of e0 t0 e1 t1 e2 t2]
              s0 s1 s2 l0 l1 l2
            show ?thesis by simp
          qed
        qed
      qed
    qed
  qed
qed

lemma upt_1_2: "[Suc 0..<2] = [1]" and upt_1_3: "[Suc 0..<3] = [1, 2]"
  by (simp_all add: upt_rec)

lemma syncFiles_general:
  assumes "syncFiles env local = Some (r, l, t)"
  shows "r \<noteq> Inr None \<and> 1 \<le> count_list t ListFiles \<and> count_list t ListFiles \<le> 3 \<and>
     waits t = map (\<lambda>i. 1000 * i) [1..<count_list t ListFiles] \<and>
     (\<forall>files. r = Inr (Some files) \<longrightarrow>
        (\<exists>k pre tk. k < 3 \<and> sync_attempt env k local = Some (Inr files, l, tk) \<and>
           t = pre @ tk \<and> filter is_transfer pre = [])) \<and>
     (\<forall>e. r = Inl e \<longrightarrow>
        count_list t ListFiles = 3 \<and> l = local \<and> filter is_transfer t = [] \<and>
        (\<exists>t2. sync_attempt env 2 local = Some (Inl e, local, t2)))"
  using assms
proof (cases rule: syncFiles_cases)
  case (first files)
  note e = sync_attempt_returns_effects [OF first(1)]
  have "\<exists>k pre tk. k < 3 \<and> sync_attempt env k local = Some (Inr files, l, tk) \<and>
           t = pre @ tk \<and> filter is_transfer pre = []"
    using first(1) by (intro exI [of _ 0] exI [of _ "[]"] exI [of _ t]) simp
  then show ?thesis using first(2) e by (simp add: upt_rec)
next
  case (second e0 t0 files t')
  note a = sync_attempt_throws_effects [OF second(1)]
  note e = sync_attempt_returns_effects [OF second(2)]
  have c: "count_list t ListFiles = 2" using second(4) a(4) e(1) by simp
  have w: "waits t = [1000]" using second(4) a(3) e(2) by simp
  have "\<exists>k pre tk. k < 3 \<and> sync_attempt env k local = Some (Inr files, l, tk) \<and>
           t = pre @ tk \<and> filter is_transfer pre = []"
    using second(2,4) a(2)
    by (intro exI [of _ 1] exI [of _ "t0 @ [Log (Warn_attempt_failed 1), Wait 1000]"]
          exI [of _ t']) simp
  then show ?thesis using second(3) c w by (simp add: upt_1_2)
next
  case (third e0 t0 e1 t1 files t')
  note a = sync_attempt_throws_effects [OF third(1)]
  note b = sync_attempt_throws_effects [OF third(2)]
  note e = sync_attempt_returns_effects [OF third(3)]
  have c: "count_list t ListFiles = 3" using third(5) a(4) b(4) e(1) by simp
  have w: "waits t = [1000, 2000]" using third(5) a(3) b(3) e(2) by simp
  have "\<exists>k pre tk. k < 3 \<and> sync_attempt env k local = Some (Inr files, l, tk) \<and>
           t = pre @ tk \<and> filter is_transfer pre = []"
    using third(3,5) a(2) b(2)
    by (intro exI [of _ 2]
          exI [of _ "t0 @ [Log (Warn_attempt_failed 1), Wait 1000] @
                     t1 @ [Log (Warn_attempt_failed 2), Wait 2000]"]
          exI [of _ t']) simp
  then show ?thesis using third(4) c w by (simp add: upt_1_3)
next
  case (exhausted e0 t0 e1 t1 e2 t2)
  note a = sync_attempt_throws_effects [OF exhausted(1)]
  note b = sync_attempt_throws_effects [OF exhausted(2)]
  note d = sync_attempt_throws_effects [OF exhausted(3)]
  have c: "count_list t ListFiles = 3" using exhausted(6) a(4) b(4) d(4) by simp
  have w: "waits t = [1000, 2000]" using exhausted(6) a(3) b(3) d(3) by simp
  have f: "filter is_transfer t = []" using exhausted(6) a(2) b(2) d(2) by simp
  show ?thesis using exhausted(3,4,5) c w f by (simp add: upt_1_3)
qed

text \<open>
  Claim C5. An attempt that throws is retried, three attempts at most, with a wait of
  \<open>attempt \<times> 1000\<close> ms between two attempts: 1000 ms after the first failure, 2000 ms
  after the second. When the first two attempts throw and the third returns,
  \<open>syncFiles\<close> returns the file list of the third, and the only downloads and removals
  are those of the third. When all three throw, the error of the third goes to the
  caller, the directory is as it was, and the function given to \<^verbatim>\<open>setInterval\<close>
  catches the error, logs it and returns. In general a call that returns has made
  between one and three listings, has waited 1000 ms, then 2000 ms, between them,
  returns a list only as the result of one attempt, whose downloads and removals are
  the only ones, and throws only the error of a third failed attempt.
\<close>

theorem syncFiles_retry:
  "(sync_attempt env 0 local = Some (Inl e0, l0, t0) \<and>
    sync_attempt env 1 local = Some (Inl e1, l1, t1) \<and>
    sync_attempt env 2 local = Some (Inr files, l, t) \<longrightarrow>
      syncFiles env local =
        Some (Inr (Some files), l,
              t0 @ [Log (Warn_attempt_failed 1), Wait 1000] @
              t1 @ [Log (Warn_attempt_failed 2), Wait 2000] @ t) \<and>
      filter is_transfer
        (t0 @ [Log (Warn_attempt_failed 1), Wait 1000] @
         t1 @ [Log (Warn_attempt_failed 2), Wait 2000] @ t) = filter is_transfer t) \<and>
   (sync_attempt env 0 local = Some (Inl e0, l0, t0) \<and>
    sync_attempt env 1 local = Some (Inl e1, l1, t1) \<and>
    sync_attempt env 2 local = Some (Inl e2, l2, t2) \<longrightarrow>
      syncFiles env local =
        Some (Inl e2, local,
              t0 @ [Log (Warn_attempt_failed 1), Wait 1000] @
              t1 @ [Log (Warn_attempt_failed 2), Wait 2000] @
              t2 @ [Log (Warn_attempt_failed 3), Log Error_max_retries]) \<and>
      (\<not> isPaused s \<and> local_files s = local \<longrightarrow>
         interval_callback env s =
           Some (s\<lparr>trace := trace s @
              t0 @ [Log (Warn_attempt_failed 1), Wait 1000] @
              t1 @ [Log (Warn_attempt_failed 2), Wait 2000] @
              t2 @ [Log (Warn_attempt_failed 3), Log Error_max_retries] @
              [Log Error_sync_failed]\<rparr>))) \<and>
   (syncFiles env local = Some (r, l', t') \<longrightarrow>
      r \<noteq> Inr None \<and> 1 \<le> count_list t' ListFiles \<and> count_list t' ListFiles \<le> 3 \<and>
      waits t' = map (\<lambda>i. 1000 * i) [1..<count_list t' ListFiles] \<and>
      (\<forall>fs. r = Inr (Some fs) \<longrightarrow>
         (\<exists>k pre tk. k < 3 \<and> sync_attempt env k local = Some (Inr fs, l', tk) \<and>
            t' = pre @ tk \<and> filter is_transfer pre = [])) \<and>
      (\<forall>e. r = Inl e \<longrightarrow>
         count_list t' ListFiles = 3 \<and> l' = local \<and> filter is_transfer t' = [] \<and>
         (\<exists>tl. sync_attempt env 2 local = Some (Inl e, local, tl))))"
proof (intro conjI impI)
  assume h: "sync_attempt env 0 local = Some (Inl e0, l0, t0) \<and>
    sync_attempt env 1 local = Some (Inl e1, l1, t1) \<and>
    sync_attempt env 2 local = Some (Inr files, l, t)"
  then have a: "sync_attempt env 0 local = Some (Inl e0, l0, t0)"
    and b: "sync_attempt env 1 local = Some (Inl e1, l1, t1)"
    and c: "sync_attempt env 2 local = Some (Inr files, l, t)" by simp_all
  show "syncFiles env local =
        Some (Inr (Some files), l,
              t0 @ [Log (Warn_attempt_failed 1), Wait 1000] @
              t1 @ [Log (Warn_attempt_failed 2), Wait 2000] @ t)"
    by (rule syncFiles_third [OF a b c])
  show "filter is_transfer
        (t0 @ [Log (Warn_attempt_failed 1), Wait 1000] @
         t1 @ [Log (Warn_attempt_failed 2), Wait 2000] @ t) = filter is_transfer t"
    using sync_attempt_throws_effects(2) [OF a] sync_attempt_throws_effects(2) [OF b] by simp
next
  assume h: "sync_attempt env 0 local = Some (Inl e0, l0, t0) \<and>
    sync_attempt env 1 local = Some (Inl e1, l1, t1) \<and>
    sync_attempt env 2 local = Some (Inl e2, l2, t2)"
  then have a: "sync_attempt env 0 local = Some (Inl e0, l0, t0)"
    and b: "sync_attempt env 1 local = Some (Inl e1, l1, t1)"
    and c: "sync_attempt env 2 local = Some (Inl e2, l2, t2)" by simp_all
  show x: "syncFiles env local =
        Some (Inl e2, local,
              t0 @ [Log (Warn_attempt_failed 1), Wait 1000] @
              t1 @ [Log (Warn_attempt_failed 2), Wait 2000] @
              t2 @ [Log (Warn_attempt_failed 3), Log Error_max_retries])"
    by (rule syncFiles_exhausted [OF a b c])
  assume "\<not> isPaused s \<and> local_files s = local"
  then show "interval_callback env s =
           Some (s\<lparr>trace := trace s @
              t0 @ [Log (Warn_attempt_failed 1), Wait 1000] @
              t1 @ [Log (Warn_attempt_failed 2), Wait 2000] @
              t2 @ [Log (Warn_attempt_failed 3), Log Error_max_retries] @
              [Log Error_sync_failed]\<rparr>)"
    using x by (simp add: interval_callback_def say_def)
next
  assume "syncFiles env local = Some (r, l', t')"
  from syncFiles_general [OF this]
  show "r \<noteq> Inr None" "1 \<le> count_list t' ListFiles" "count_list t' ListFiles \<le> 3"
    "waits t' = map (\<lambda>i. 1000 * i) [1..<count_list t' ListFiles]"
    "\<forall>fs. r = Inr (Some fs) \<longrightarrow>
         (\<exists>k pre tk. k < 3 \<and> sync_attempt env k local = Some (Inr fs, l', tk) \<and>
            t' = pre @ tk \<and> filter is_transfer pre = [])"
    "\<forall>e. r = Inl e \<longrightarrow>
         count_list t' ListFiles = 3 \<and> l' = local \<and> filter is_transfer t' = [] \<and>
         (\<exists>tl. sync_attempt env 2 local = Some (Inl e, local, tl))"
    by blast+
qed

subsection \<open>The job on the example drive\<close>

lemma example_listing:
  "listFiles 4 (\<lambda>n. True) example_drive ''root'' = Some (Inr [file_a, file_b])"
  by (simp add: listFiles_def example_drive_def file_a_def file_b_def eval_nat_numeral)

lemma unreachable_listing:
  "listFiles 4 (\<lambda>n. True) unreachable_drive ''root'' = Some (Inl (Error ''ECONNRESET''))"
  by (simp add: listFiles_def unreachable_drive_def eval_nat_numeral)

lemma escaping_listing:
  "listFiles 4 (\<lambda>n. True) escaping_drive ''root'' = Some (Inr [file_a, file_x])"
  by (simp add: listFiles_def escaping_drive_def file_a_def file_x_def eval_nat_numeral)

lemmas example_simps =
  sync_attempt_def example_env_def example_listing unreachable_listing escaping_listing
  downloadFile_def pathExists_def create_file_def remove_file_def readdir_def path_join_def
  path_step_def mirror_of_def after_def file_a_def file_b_def file_x_def

theorem syncFiles_retry_witness:
  "syncFiles
     (example_env\<lparr>drive_at :=
        (\<lambda>attempt. if attempt < 2 then unreachable_drive else example_drive)\<rparr>)
     (mirror_of [''a.jpg'', ''c.jpg'']) =
   Some (Inr (Some [file_a, file_b]), (mirror_of [''a.jpg'', ''b.mp4'']),
     [ListFiles, Log (Warn_attempt_failed 1), Wait 1000,
      ListFiles, Log (Warn_attempt_failed 2), Wait 2000,
      ListFiles, Log (Info_found 2), Readdir,
      Download ''2'' ''b.mp4'', Log (Info_downloaded ''b.mp4''),
      Remove ''c.jpg'', Log (Info_removed ''c.jpg'')]) \<and>
   syncFiles (example_env\<lparr>drive_at := (\<lambda>attempt. unreachable_drive)\<rparr>) (mirror_of [''a.jpg'', ''c.jpg'']) =
   Some (Inl (Error ''ECONNRESET''), (mirror_of [''a.jpg'', ''c.jpg'']),
     [ListFiles, Log (Warn_attempt_failed 1), Wait 1000,
      ListFiles, Log (Warn_attempt_failed 2), Wait 2000,
      ListFiles, Log (Warn_attempt_failed 3), Log Error_max_retries]) \<and>
   interval_callback (example_env\<lparr>drive_at := (\<lambda>attempt. unreachable_drive)\<rparr>) example_service =
   Some (example_service\<lparr>trace :=
     [ListFiles, Log (Warn_attempt_failed 1), Wait 1000,
      ListFiles, Log (Warn_attempt_failed 2), Wait 2000,
      ListFiles, Log (Warn_attempt_failed 3), Log Error_max_retries,
      Log Error_sync_failed]\<rparr>) \<and>
   waits
     [ListFiles, Log (Warn_attempt_failed 1), Wait 1000,
      ListFiles, Log (Warn_attempt_failed 2), Wait 2000,
      ListFiles, Log (Info_found 2), Readdir,
      Download ''2'' ''b.mp4'', Log (Info_downloaded ''b.mp4''),
      Remove ''c.jpg'', Log (Info_removed ''c.jpg'')] = [1000, 2000]"
proof -
  let ?retry = "example_env\<lparr>drive_at :=
        (\<lambda>attempt. if attempt < 2 then unreachable_drive else example_drive)\<rparr>"
  let ?down = "example_env\<lparr>drive_at := (\<lambda>attempt. unreachable_drive)\<rparr>"
  let ?local = "mirror_of [''a.jpg'', ''c.jpg'']"
  have r0: "sync_attempt ?retry 0 ?local = Some (Inl (Error ''ECONNRESET''), ?local, [ListFiles])"
    and r1: "sync_attempt ?retry 1 ?local = Some (Inl (Error ''ECONNRESET''), ?local, [ListFiles])"
    and r2: "sync_attempt ?retry 2 ?local =
       Some (Inr [file_a, file_b], (mirror_of [''a.jpg'', ''b.mp4'']),
         [ListFiles, Log (Info_found 2), Readdir,
          Download ''2'' ''b.mp4'', Log (Info_downloaded ''b.mp4''),
          Remove ''c.jpg'', Log (Info_removed ''c.jpg'')])"
    by (simp_all add: example_simps)
  have d: "sync_attempt ?down k ?local = Some (Inl (Error ''ECONNRESET''), ?local, [ListFiles])"
    for k by (simp add: example_simps)
  have s: "\<not> isPaused example_service \<and> local_files example_service = ?local"
    by (simp add: example_service_def)
  have t: "trace example_service = []" by (simp add: example_service_def)
  from syncFiles_retry [THEN conjunct1, rule_format, OF conjI [OF r0 conjI [OF r1 r2]]]
  have a: "syncFiles ?retry ?local =
   Some (Inr (Some [file_a, file_b]), (mirror_of [''a.jpg'', ''b.mp4'']),
     [ListFiles, Log (Warn_attempt_failed 1), Wait 1000,
      ListFiles, Log (Warn_attempt_failed 2), Wait 2000,
      ListFiles, Log (Info_found 2), Readdir,
      Download ''2'' ''b.mp4'', Log (Info_downloaded ''b.mp4''),
      Remove ''c.jpg'', Log (Info_removed ''c.jpg'')])" by simp
  note x = syncFiles_retry [THEN conjunct2, THEN conjunct1, rule_format,
      OF conjI [OF d [of 0] conjI [OF d [of 1] d [of 2]]]]
  from x [THEN conjunct1]
  have b: "syncFiles ?down ?local =
   Some (Inl (Error ''ECONNRESET''), ?local,
     [ListFiles, Log (Warn_attempt_failed 1), Wait 1000,
      ListFiles, Log (Warn_attempt_failed 2), Wait 2000,
      ListFiles, Log (Warn_attempt_failed 3), Log Error_max_retries])" by simp
  from x [THEN conjunct2, rule_format, OF s] t
  have c: "interval_callback ?down example_service =
   Some (example_service\<lparr>trace :=
     [ListFiles, Log (Warn_attempt_failed 1), Wait 1000,
      ListFiles, Log (Warn_attempt_failed 2), Wait 2000,
      ListFiles, Log (Warn_attempt_failed 3), Log Error_max_retries,
      Log Error_sync_failed]\<rparr>)" by simp
  from syncFiles_retry [THEN conjunct2, THEN conjunct2, rule_format, OF a]
  have g: "waits
     [ListFiles, Log (Warn_attempt_failed 1), Wait 1000,
      ListFiles, Log (Warn_attempt_failed 2), Wait 2000,
      ListFiles, Log (Info_found 2), Readdir,
      Download ''2'' ''b.mp4'', Log (Info_downloaded ''b.mp4''),
      Remove ''c.jpg'', Log (Info_removed ''c.jpg'')] = [1000, 2000]"
    by (simp add: upt_1_3)
  from a b c g show ?thesis by blast
qed

subsection \<open>Failures of single files\<close>

text \<open>
  When the listing and \<^verbatim>\<open>readdir\<close> of the first attempt succeed and every download is
  resolved or rejected, the pass returns the file list whatever the downloads and the
  removals do: there is one listing, no wait and no failed attempt. Each download is
  logged as done or as failed, and each entry without a listed file is asked to be
  removed and logged as removed or as not removed.
\<close>

lemma settled_downloads_skipped:
  assumes "listFiles (fuel env) (isValidFile env) (drive_at env 0) (folderId env)
             = Some (Inr files)"
    and "readdir_at env 0 = None"
    and "\<forall>file \<in> set files. downloadFile (download_of env file) \<noteq> Pending"
  shows "\<exists>local' effs.
     syncFiles env local = Some (Inr (Some files), local', effs) \<and>
     count_list effs ListFiles = 1 \<and> waits effs = [] \<and>
     (\<forall>k. Log (Warn_attempt_failed k) \<notin> set effs) \<and>
     (\<forall>i n. Download i n \<in> set effs \<longrightarrow>
         Log (Info_downloaded n) \<in> set effs \<or> Log (Warn_download_failed n) \<in> set effs) \<and>
     (\<forall>n \<in> set (readdir local (downloadPath env)).
         \<not> list_ex (\<lambda>file. file_name file = n) files \<longrightarrow>
         Remove n \<in> set effs \<and>
         (if remove_result env n = None then Log (Info_removed n) \<in> set effs
          else Log (Warn_remove_failed n) \<in> set effs))"
proof -
  from sync_attempt_runs [OF assms] obtain l t
    where a: "sync_attempt env 0 local = Some (Inr files, l, t)" by blast
  note s = syncFiles_first [OF a]
  note e = sync_attempt_returns_effects [OF a]
  from sync_attempt_returns [OF a] obtain l1 t1 t2
    where d: "download_loop env files local = Some (l1, t1)"
      and r: "remove_loop env files (readdir local (downloadPath env)) l1 = (l, t2)"
      and t: "t = [ListFiles, Log (Info_found (length files)), Readdir] @ t1 @ t2"
    by blast
  note dl = download_loop_effects [OF d]
  note rl = remove_loop_effects [OF r]
  have p1: "\<forall>i n. Download i n \<in> set t \<longrightarrow>
         Log (Info_downloaded n) \<in> set t \<or> Log (Warn_download_failed n) \<in> set t"
  proof (intro allI impI)
    fix i n assume "Download i n \<in> set t"
    then have "Download i n \<in> set t1" using t rl by auto
    then have "Log (Info_downloaded n) \<in> set t1 \<or> Log (Warn_download_failed n) \<in> set t1"
      using dl by blast
    then show "Log (Info_downloaded n) \<in> set t \<or> Log (Warn_download_failed n) \<in> set t"
      using t by auto
  qed
  have p2: "\<forall>n \<in> set (readdir local (downloadPath env)).
         \<not> list_ex (\<lambda>file. file_name file = n) files \<longrightarrow>
         Remove n \<in> set t \<and>
         (if remove_result env n = None then Log (Info_removed n) \<in> set t
          else Log (Warn_remove_failed n) \<in> set t)"
    using rl t by auto
  show ?thesis using s e p1 p2 by blast
qed

text \<open>
  Claim C4, at the input where the code departs from it. Remote \<open>a.jpg\<close> and \<open>b.mp4\<close>,
  the download directory holding \<open>c.jpg\<close>. When the request for \<open>a.jpg\<close> is refused, the
  failure is logged, \<open>b.mp4\<close> is downloaded, \<open>c.jpg\<close> is removed and the pass returns the
  list. When instead the response stream of \<open>a.jpg\<close> fails, \<open>syncFiles\<close> does not return:
  the pass \<open>startSync\<close> has started comes to await the write stream of \<open>a.jpg\<close> and stays
  there whatever steps it is given, with nothing logged for \<open>a.jpg\<close>, and \<open>b.mp4\<close> and
  \<open>c.jpg\<close> never reached.
\<close>

theorem syncFiles_read_stream_failure:
  "syncFiles refusing_env (mirror_of [''c.jpg'']) =
   Some (Inr (Some [file_a, file_b]), mirror_of [''b.mp4''],
     [ListFiles, Log (Info_found 2), Readdir,
      Download ''1'' ''a.jpg'', Log (Warn_download_failed ''a.jpg''),
      Download ''2'' ''b.mp4'', Log (Info_downloaded ''b.mp4''),
      Remove ''c.jpg'', Log (Info_removed ''c.jpg'')]) \<and>
   syncFiles stalling_env (mirror_of [''c.jpg'']) = None \<and>
   run_service
     [CallStartSync stalling_env 60000, Advance 0, Advance 0, Advance 0, Advance 0,
      Advance 0, Advance 0, Advance 0]
     (example_service\<lparr>local_files := mirror_of [''c.jpg'']\<rparr>) =
   \<lparr>syncInterval = Some 60000, isPaused = False,
     local_files = mirror_of [''c.jpg'', ''a.jpg''],
     trace = [ListFiles, Log (Info_found 2), Readdir, Download ''1'' ''a.jpg''],
     passes = [(ByStartSync, stalling_env,
                AwaitStream 0 [file_a, file_b] [''c.jpg''] [file_a, file_b])]\<rparr>"
  by (simp add: syncFiles_def sync_retry_0 example_simps refusing_env_def stalling_env_def
        run_service_def service_step_def startSync_def begin_pass_def advance_def caught_def
        enter_loop_def MAX_RETRIES_def next_download_def next_removal_def example_service_def)

subsection \<open>The mirror\<close>





text \<open>
  A listed name need not be plain. The pass downloads \<^verbatim>\<open>../x.jpg\<close> to the parent of the
  download directory and logs no failure; the download directory holds \<open>a.jpg\<close> alone
  while the returned list names two files.
\<close>

lemma syncFiles_name_outside_directory:
  "syncFiles (example_env\<lparr>drive_at := (\<lambda>attempt. escaping_drive)\<rparr>) (mirror_of [''a.jpg'']) =
     Some (Inr (Some [file_a, file_x]), mirror_of [''a.jpg''] @ [[''srv'', ''x.jpg'']],
       [ListFiles, Log (Info_found 2), Readdir,
        Download ''3'' ''../x.jpg'', Log (Info_downloaded ''../x.jpg'')]) \<and>
   readdir (mirror_of [''a.jpg''] @ [[''srv'', ''x.jpg'']]) [''srv'', ''media''] = [''a.jpg'']"
proof -
  have "sync_attempt (example_env\<lparr>drive_at := (\<lambda>attempt. escaping_drive)\<rparr>) 0
          (mirror_of [''a.jpg'']) =
     Some (Inr [file_a, file_x], mirror_of [''a.jpg''] @ [[''srv'', ''x.jpg'']],
       [ListFiles, Log (Info_found 2), Readdir,
        Download ''3'' ''../x.jpg'', Log (Info_downloaded ''../x.jpg'')])"
    by (simp add: example_simps)
  then show ?thesis
    by (simp add: syncFiles_first readdir_def mirror_of_def)
qed

subsection \<open>Downloads\<close>

lemma settle_settled [simp]:
  "foldl settle Resolved evs = Resolved" "foldl settle (Rejected e) evs = Rejected e"
  by (induction evs) simp_all

lemma foldl_settle_resolved:
  "foldl settle p evs = Resolved \<Longrightarrow> p = Resolved \<or> (p = Pending \<and> DestFinish \<in> set evs)"
proof (induction evs arbitrary: p)
  case Nil
  then show ?case by simp
next
  case (Cons ev evs)
  then show ?case by (cases p; cases ev) auto
qed

text \<open>Completion is signalled only by the \<open>finish\<close> of the write stream.\<close>

lemma downloadFile_resolved:
  assumes "downloadFile r = Resolved"
  shows "get_result r = None \<and> DestFinish \<in> set (stream_events r)"
  using assms foldl_settle_resolved [of Pending "stream_events r"]
  by (auto simp: downloadFile_def split: option.splits)

text \<open>An error of the write stream, before it finishes, rejects the promise.\<close>

lemma downloadFile_dest_error:
  assumes "get_result r = None" "stream_events r = pre @ DestError e # rest"
    "\<forall>ev \<in> set pre. \<exists>e'. ev = SourceError e'"
  shows "downloadFile r = Rejected e"
proof -
  have "foldl settle Pending pre = Pending" using assms(3)
    by (induction pre) auto
  then show ?thesis using assms(1,2) by (simp add: downloadFile_def)
qed

text \<open>An error thrown by \<^verbatim>\<open>drive.files.get\<close> rejects it too.\<close>

lemma downloadFile_get_error: "get_result r = Some e \<Longrightarrow> downloadFile r = Rejected e"
  by (simp add: downloadFile_def)

text \<open>Errors of the response stream alone never settle the promise.\<close>

lemma downloadFile_source_errors:
  assumes "get_result r = None" "\<forall>ev \<in> set (stream_events r). \<exists>e. ev = SourceError e"
  shows "downloadFile r = Pending"
proof -
  have "foldl settle Pending evs = Pending" if "\<forall>ev \<in> set evs. \<exists>e. ev = SourceError e" for evs
    using that by (induction evs) auto
  then show ?thesis using assms by (simp add: downloadFile_def)
qed

text \<open>
  Claim C8, at the input where the code departs from it. The promise is resolved
  only by the \<open>finish\<close> of the write stream, and an error of the write stream rejects
  it; but no listener is installed on the response stream, so when that stream
  fails the promise stays pending and \<open>syncFiles\<close>, which awaits it, does not return.
\<close>

theorem downloadFile_source_error_pending:
  "downloadFile \<lparr>get_result = None, stream_events = [SourceError (Error ''ECONNRESET'')],
                 file_created = True\<rparr> = Pending \<and>
   syncFiles
     (example_env\<lparr>download_of := (\<lambda>file.
        \<lparr>get_result = None, stream_events = [SourceError (Error ''ECONNRESET'')],
         file_created = True\<rparr>)\<rparr>)
     (mirror_of [''a.jpg'', ''c.jpg'']) = None"
  by (simp add: syncFiles_def sync_retry_0 example_simps)

subsection \<open>A pass in steps and the pass as a whole\<close>

lemma pass_run_step: "pass_step env p fs = Some (p', fs', t) \<Longrightarrow> pass_run env p fs t p' fs'"
  using pass_moves [OF _ pass_stays, of env p fs p' fs' t] by simp

lemma pass_run_trans:
  "pass_run env p fs t p1 fs1 \<Longrightarrow> pass_run env p1 fs1 t' p' fs' \<Longrightarrow>
   pass_run env p fs (t @ t') p' fs'"
proof (induction rule: pass_run.induct)
  case (pass_stays p fs)
  then show ?case by simp
next
  case (pass_moves p fs q fsq t1 t2 p1 fs1)
  from pass_run.pass_moves [OF pass_moves.hyps(1) pass_moves.IH [OF pass_moves.prems]]
  show ?case by simp
qed

lemma pass_over_stays:
  assumes "pass_run env p fs t p' fs'" "is_over p"
  shows "p' = p \<and> fs' = fs \<and> t = []"
  using assms by (induction rule: pass_run.induct) (auto elim: is_over.elims)

lemma create_file_twice [simp]: "create_file p (create_file p fs) = create_file p fs"
  by (simp add: create_file_def)

text \<open>The first loop, step by step.\<close>

lemma download_loop_steps:
  "download_loop env rest fs = Some (fs', t) \<Longrightarrow>
   pass_run env (next_download a files ls rest) fs t (next_removal a files ls) fs'"
proof (induction rest arbitrary: fs fs' t)
  case Nil
  then show ?case by (simp add: next_download_def pass_stays)
next
  case (Cons g gs)
  let ?p = "path_join (downloadPath env) (file_name g)"
  let ?D = "Download (file_id g) (file_name g)"
  have start: "next_download a files ls (g # gs) = AwaitExists a files ls (g # gs)"
    by (simp add: next_download_def)
  show ?case
  proof (cases "pathExists fs ?p")
    case True
    then have "download_loop env gs fs = Some (fs', t)" using Cons.prems by simp
    from Cons.IH [OF this]
    have r: "pass_run env (next_download a files ls gs) fs t (next_removal a files ls) fs'" .
    have "pass_step env (AwaitExists a files ls (g # gs)) fs =
            Some (next_download a files ls gs, fs, [])" using True by simp
    from pass_moves [OF this r] show ?thesis by (simp add: start)
  next
    case False
    have s1: "pass_step env (AwaitExists a files ls (g # gs)) fs =
            Some (AwaitGet a files ls (g # gs), fs, [])" using False by simp
    show ?thesis
    proof (cases "get_result (download_of env g)")
      case (Some err)
      then have d: "downloadFile (download_of env g) = Rejected err"
        by (simp add: downloadFile_def)
      from Cons.prems False d Some obtain r where r: "download_loop env gs fs = Some r"
        and e: "after [?D, Log (Warn_download_failed (file_name g))] r = (fs', t)"
        by auto
      have r': "download_loop env gs fs = Some (fs', snd r)"
        using r e by (cases r) (simp add: after_def)
      have t: "t = [?D, Log (Warn_download_failed (file_name g))] @ snd r"
        using e by (cases r) (auto simp: after_def)
      have s2: "pass_step env (AwaitGet a files ls (g # gs)) fs =
            Some (next_download a files ls gs, fs,
                  [?D, Log (Warn_download_failed (file_name g))])"
        using Some by simp
      from pass_moves [OF s1 pass_moves [OF s2 Cons.IH [OF r']]] show ?thesis
        by (simp add: start t)
    next
      case None
      let ?fs1 = "if file_created (download_of env g) then create_file ?p fs else fs"
      have s2: "pass_step env (AwaitGet a files ls (g # gs)) fs =
            Some (AwaitStream a files ls (g # gs), ?fs1, [?D])"
        using None by simp
      have d: "downloadFile (download_of env g) =
                 foldl settle Pending (stream_events (download_of env g))"
        using None by (simp add: downloadFile_def)
      show ?thesis
      proof (cases "foldl settle Pending (stream_events (download_of env g))")
        case Pending
        then show ?thesis using Cons.prems False d by simp
      next
        case Resolved
        from Cons.prems False d Resolved obtain r
          where r: "download_loop env gs (create_file ?p fs) = Some r"
          and e: "after [?D, Log (Info_downloaded (file_name g))] r = (fs', t)"
          by auto
        have r': "download_loop env gs (create_file ?p fs) = Some (fs', snd r)"
          using r e by (cases r) (simp add: after_def)
        have t: "t = [?D, Log (Info_downloaded (file_name g))] @ snd r"
          using e by (cases r) (auto simp: after_def)
        have c: "create_file ?p ?fs1 = create_file ?p fs" by simp
        have s3: "pass_step env (AwaitStream a files ls (g # gs)) ?fs1 =
            Some (next_download a files ls gs, create_file ?p fs,
                  [Log (Info_downloaded (file_name g))])"
          using Resolved c by simp
        from pass_moves [OF s1 pass_moves [OF s2 pass_moves [OF s3 Cons.IH [OF r']]]]
        show ?thesis by (simp add: start t)
      next
        case (Rejected err)
        have same: "(if get_result (download_of env g) = None \<and> file_created (download_of env g)
                     then create_file ?p fs else fs) = ?fs1" using None by simp
        from Cons.prems False d Rejected same obtain r
          where r: "download_loop env gs ?fs1 = Some r"
          and e: "after [?D, Log (Warn_download_failed (file_name g))] r = (fs', t)"
          by auto
        have r': "download_loop env gs ?fs1 = Some (fs', snd r)"
          using r e by (cases r) (simp add: after_def)
        have t: "t = [?D, Log (Warn_download_failed (file_name g))] @ snd r"
          using e by (cases r) (auto simp: after_def)
        have s3: "pass_step env (AwaitStream a files ls (g # gs)) ?fs1 =
            Some (next_download a files ls gs, ?fs1,
                  [Log (Warn_download_failed (file_name g))])"
          using Rejected by simp
        from pass_moves [OF s1 pass_moves [OF s2 pass_moves [OF s3 Cons.IH [OF r']]]]
        show ?thesis by (simp add: start t)
      qed
    qed
  qed
qed

text \<open>The second loop, step by step.\<close>

lemma remove_loop_steps:
  "remove_loop env files ls fs = (fs', t) \<Longrightarrow>
   pass_run env (next_removal a files ls) fs t (Returned (Some files)) fs'"
proof (induction ls arbitrary: fs fs' t)
  case Nil
  then show ?case by (simp add: next_removal_def pass_stays)
next
  case (Cons n ns)
  show ?case
  proof (cases "list_ex (\<lambda>file. file_name file = n) files")
    case True
    then have "remove_loop env files ns fs = (fs', t)" using Cons.prems by simp
    from Cons.IH [OF this] True show ?thesis by (simp add: next_removal_def)
  next
    case False
    have start: "next_removal a files (n # ns) = AwaitRemove a files (n # ns)"
      using False by (simp add: next_removal_def)
    show ?thesis
    proof (cases "remove_result env n")
      case None
      let ?fs1 = "remove_file (path_join (downloadPath env) n) fs"
      let ?r = "remove_loop env files ns ?fs1"
      have e: "fst ?r = fs'" "t = [Remove n, Log (Info_removed n)] @ snd ?r"
        using Cons.prems False None by (auto simp: after_eq)
      have r: "remove_loop env files ns ?fs1 = (fs', snd ?r)"
        using e(1) by (simp add: prod_eq_iff)
      have s: "pass_step env (AwaitRemove a files (n # ns)) fs =
          Some (next_removal a files ns, ?fs1, [Remove n, Log (Info_removed n)])"
        using None by simp
      from pass_moves [OF s Cons.IH [OF r]] show ?thesis by (simp add: start e(2))
    next
      case (Some err)
      let ?r = "remove_loop env files ns fs"
      have e: "fst ?r = fs'" "t = [Remove n, Log (Warn_remove_failed n)] @ snd ?r"
        using Cons.prems False Some by (auto simp: after_eq)
      have r: "remove_loop env files ns fs = (fs', snd ?r)"
        using e(1) by (simp add: prod_eq_iff)
      have s: "pass_step env (AwaitRemove a files (n # ns)) fs =
          Some (next_removal a files ns, fs, [Remove n, Log (Warn_remove_failed n)])"
        using Some by simp
      from pass_moves [OF s Cons.IH [OF r]] show ?thesis by (simp add: start e(2))
    qed
  qed
qed

text \<open>One attempt, step by step: it returns, or it ends in the \<^verbatim>\<open>catch\<close> block.\<close>

lemma sync_attempt_steps_returns:
  assumes "sync_attempt env a fs = Some (Inr files, fs', t)"
  shows "pass_run env (AwaitList a) fs t (Returned (Some files)) fs'"
proof -
  from sync_attempt_returns [OF assms] obtain l1 t1 t2
    where li: "listFiles (fuel env) (isValidFile env) (drive_at env a) (folderId env)
                 = Some (Inr files)"
      and rd: "readdir_at env a = None"
      and d: "download_loop env files fs = Some (l1, t1)"
      and r: "remove_loop env files (readdir fs (downloadPath env)) l1 = (fs', t2)"
      and t: "t = [ListFiles, Log (Info_found (length files)), Readdir] @ t1 @ t2"
    by blast
  have s1: "pass_step env (AwaitList a) fs =
      Some (AwaitReaddir a files, fs, [ListFiles, Log (Info_found (length files))])"
    using li by simp
  have s2: "pass_step env (AwaitReaddir a files) fs =
      Some (next_download a files (readdir fs (downloadPath env)) files, fs, [Readdir])"
    using rd by simp
  note both = pass_run_trans [OF download_loop_steps [OF d] remove_loop_steps [OF r]]
  from pass_moves [OF s1 pass_moves [OF s2 both]] show ?thesis by (simp add: t)
qed

lemma sync_attempt_steps_throws:
  assumes "sync_attempt env a fs = Some (Inl e, fs', t)"
  shows "pass_run env (AwaitList a) fs (t @ snd (catch_error a e)) (fst (catch_error a e)) fs"
proof (cases "listFiles (fuel env) (isValidFile env) (drive_at env a) (folderId env)")
  case None
  then show ?thesis using assms by (simp add: sync_attempt_def)
next
  case (Some x)
  show ?thesis
  proof (cases x)
    case (Inl err)
    then have "t = [ListFiles]" "err = e" using assms Some by (simp_all add: sync_attempt_def)
    moreover have "pass_step env (AwaitList a) fs =
       Some (fst (catch_error a err), fs, ListFiles # snd (catch_error a err))"
      using Some Inl by simp
    ultimately show ?thesis using pass_run_step by fastforce
  next
    case (Inr files)
    have s1: "pass_step env (AwaitList a) fs =
      Some (AwaitReaddir a files, fs, [ListFiles, Log (Info_found (length files))])"
      using Some Inr by simp
    show ?thesis
    proof (cases "readdir_at env a")
      case None
      then show ?thesis using assms Some Inr
        by (auto simp: sync_attempt_def split: option.splits prod.splits)
    next
      case (Some err)
      then have t: "t = [ListFiles, Log (Info_found (length files)), Readdir]" and "err = e"
        using assms \<open>listFiles (fuel env) (isValidFile env) (drive_at env a) (folderId env) = Some x\<close>
          Inr by (simp_all add: sync_attempt_def)
      then have s2: "pass_step env (AwaitReaddir a files) fs =
         Some (fst (catch_error a e), fs, Readdir # snd (catch_error a e))"
        using Some by simp
      from pass_moves [OF s1 pass_run_step [OF s2]] show ?thesis by (simp add: t)
    qed
  qed
qed

text \<open>
  The whole pass: a call of \<open>syncFiles\<close> that returns or throws is a pass that runs from
  its first await to its end, with the same effects and the same file system.
\<close>

lemma sync_retry_steps:
  "sync_retry env a fs = Some (r, fs', t) \<Longrightarrow>
   pass_run env (enter_loop a) fs t (outcome r) fs'"
proof (induction env a fs arbitrary: r fs' t rule: sync_retry.induct)
  case (1 env a fs)
  show ?case
  proof (cases "a < MAX_RETRIES")
    case False
    then show ?thesis using "1.prems"
      by (subst (asm) sync_retry.simps) (auto simp: enter_loop_def outcome_def pass_stays)
  next
    case True
    then have el: "enter_loop a = AwaitList a" by (simp add: enter_loop_def)
    show ?thesis
    proof (cases "sync_attempt env a fs")
      case None
      then show ?thesis using "1.prems" True by (subst (asm) sync_retry.simps) simp
    next
      case (Some x)
      obtain q l0 t0 where x: "x = (q, l0, t0)" by (cases x) auto
      show ?thesis
      proof (cases q)
        case (Inr files)
        then have at: "sync_attempt env a fs = Some (Inr files, l0, t0)" using Some x by simp
        have "r = Inr (Some files) \<and> fs' = l0 \<and> t = t0"
          using "1.prems" True at by (subst (asm) sync_retry.simps) simp
        then show ?thesis using sync_attempt_steps_returns [OF at]
          by (simp add: el outcome_def)
      next
        case (Inl e)
        then have at: "sync_attempt env a fs = Some (Inl e, l0, t0)" using Some x by simp
        have l0: "l0 = fs" by (rule sync_attempt_throws_effects(1) [OF at])
        note th = sync_attempt_steps_throws [OF at]
        show ?thesis
        proof (cases "a + 1 = MAX_RETRIES")
          case last: True
          have "r = Inl e \<and> fs' = fs \<and>
                t = t0 @ [Log (Warn_attempt_failed (a + 1)), Log Error_max_retries]"
            using "1.prems" True at last l0 by (subst (asm) sync_retry.simps) simp
          then show ?thesis using th last by (simp add: el outcome_def catch_error_def)
        next
          case more: False
          from "1.prems" True at more l0 obtain t'
            where rest: "sync_retry env (a + 1) fs = Some (r, fs', t')"
              and t: "t = t0 @ [Log (Warn_attempt_failed (a + 1)), Wait (1000 * (a + 1))] @ t'"
            by (subst (asm) sync_retry.simps) (auto split: option.splits)
          have ih: "pass_run env (enter_loop (a + 1)) fs t' (outcome r) fs'"
            by (rule "1.IH" [OF True at [unfolded l0] refl refl refl more rest])
          have s: "pass_step env (AwaitTimeout (a + 1)) fs = Some (enter_loop (a + 1), fs, [])"
            by simp
          have th': "pass_run env (AwaitList a) fs
               (t0 @ [Log (Warn_attempt_failed (a + 1)), Wait (1000 * (a + 1))])
               (AwaitTimeout (a + 1)) fs"
            using th more by (simp add: catch_error_def)
          from pass_run_trans [OF th' pass_moves [OF s ih]] show ?thesis
            by (simp add: el t)
        qed
      qed
    qed
  qed
qed

lemma syncFiles_steps:
  "syncFiles env fs = Some (r, fs', t) \<Longrightarrow> pass_run env (enter_loop 0) fs t (outcome r) fs'"
  unfolding syncFiles_def by (rule sync_retry_steps)

subsection \<open>Pausing\<close>

lemma run_service_Nil [simp]: "run_service [] s = s"
  by (simp add: run_service_def)

lemma run_service_Cons [simp]: "run_service (c # cs) s = run_service cs (service_step s c)"
  by (simp add: run_service_def)

lemma pass_over_no_step: "is_over p \<Longrightarrow> pass_step env p fs = None"
  by (cases p) simp_all

lemma caught_in_flight: "\<not> is_over p \<Longrightarrow> caught who p = []"
  by (cases p) (simp_all add: caught_def)

text \<open>
  A pass that nothing interferes with: when the steps of a pass in flight lead to its
  end, so many steps of that pass, taken one after the other, leave the service with
  the file system and the effects of the pass.
\<close>

lemma advance_run:
  assumes "pass_run env p fs t p' fs'"
  shows "k < length (passes s) \<Longrightarrow> passes s ! k = (who, env, p) \<Longrightarrow> local_files s = fs \<Longrightarrow>
     \<not> is_over p \<Longrightarrow> is_over p' \<Longrightarrow>
     \<exists>n. run_service (replicate n (Advance k)) s =
       s\<lparr>local_files := fs', trace := trace s @ t @ caught who p',
         passes := (passes s)[k := (who, env, p')]\<rparr>"
  using assms
proof (induction arbitrary: s rule: pass_run.induct)
  case (pass_stays p fs)
  then show ?case by simp
next
  case (pass_moves p fs p1 fs1 t1 t2 p' fs')
  let ?s1 = "s\<lparr>local_files := fs1, trace := trace s @ t1 @ caught who p1,
                passes := (passes s)[k := (who, env, p1)]\<rparr>"
  have adv: "service_step s (Advance k) = ?s1"
    using pass_moves.prems(1,2,3) pass_moves.hyps(1) by (simp add: service_step_def advance_def)
  show ?case
  proof (cases "is_over p1")
    case True
    from pass_over_stays [OF pass_moves.hyps(2) True]
    have "p' = p1" "fs' = fs1" "t2 = []" by simp_all
    then have "run_service (replicate 1 (Advance k)) s =
       s\<lparr>local_files := fs', trace := trace s @ (t1 @ t2) @ caught who p',
         passes := (passes s)[k := (who, env, p')]\<rparr>"
      using adv by simp
    then show ?thesis by blast
  next
    case False
    have k1: "k < length (passes ?s1)" using pass_moves.prems(1) by simp
    have p1: "passes ?s1 ! k = (who, env, p1)" using pass_moves.prems(1) by simp
    have f1: "local_files ?s1 = fs1" by simp
    from pass_moves.IH [OF k1 p1 f1 False pass_moves.prems(5)] obtain n
      where n: "run_service (replicate n (Advance k)) ?s1 =
         ?s1\<lparr>local_files := fs', trace := trace ?s1 @ t2 @ caught who p',
             passes := (passes ?s1)[k := (who, env, p')]\<rparr>"
      by blast
    have "run_service (replicate (Suc n) (Advance k)) s =
       s\<lparr>local_files := fs', trace := trace s @ (t1 @ t2) @ caught who p',
         passes := (passes s)[k := (who, env, p')]\<rparr>"
      using n adv caught_in_flight [OF False] by simp
    then show ?thesis by blast
  qed
qed

lemma pause_state:
  "isPaused (pause s)" "syncInterval (pause s) = None" "local_files (pause s) = local_files s"
  "trace (pause s) = trace s @ [Log Info_pausing]" "passes (pause s) = passes s"
  by (cases "syncInterval s"; simp add: pause_def stop_def say_def)+

lemma startSync_paused:
  "isPaused s \<Longrightarrow>
   startSync env interval s =
     s\<lparr>syncInterval := None, trace := trace s @ [Log Info_paused_not_starting]\<rparr>"
  by (cases "syncInterval s") (simp_all add: startSync_def say_def)

lemma timer_paused: "isPaused s \<Longrightarrow> service_step s (TimerFires env) = s"
  by (cases "syncInterval s") (simp_all add: service_step_def timer_callback_def)

lemma resume_starts_pass:
  "resume env s =
     s\<lparr>syncInterval := Some (sync_interval env), isPaused := False,
       trace := trace s @ [Log Info_resuming],
       passes := passes s @ [(ByStartSync, env, AwaitList 0)]\<rparr>"
  by (cases "syncInterval s")
     (simp_all add: resume_def startSync_def say_def begin_pass_def enter_loop_def
        MAX_RETRIES_def)

text \<open>While the service is paused, no call short of \<open>resume\<close> starts a pass.\<close>

lemma paused_step:
  assumes "isPaused s" "\<not> is_resume c"
  shows "isPaused (service_step s c) \<and> length (passes (service_step s c)) = length (passes s)"
proof (cases c)
  case (CallStartSync env interval)
  then show ?thesis using assms(1) by (simp add: service_step_def startSync_paused)
next
  case (TimerFires env)
  then show ?thesis using assms(1) timer_paused [OF assms(1)] by simp
next
  case CallStop
  then show ?thesis using assms(1)
    by (cases "syncInterval s") (simp_all add: service_step_def stop_def)
next
  case CallPause
  then show ?thesis using assms(1)
    by (cases "syncInterval s") (simp_all add: service_step_def pause_def stop_def say_def)
next
  case (CallResume env)
  then show ?thesis using assms(2) by simp
next
  case (Advance k)
  then show ?thesis using assms(1)
    by (auto simp: service_step_def advance_def split: prod.splits option.splits)
qed

lemma paused_run:
  "isPaused s \<Longrightarrow> \<forall>c \<in> set cs. \<not> is_resume c \<Longrightarrow>
   isPaused (run_service cs s) \<and> length (passes (run_service cs s)) = length (passes s)"
proof (induction cs arbitrary: s)
  case Nil
  then show ?case by simp
next
  case (Cons c cs)
  from Cons.prems have c: "\<not> is_resume c" and cs: "\<forall>c \<in> set cs. \<not> is_resume c" by simp_all
  note st = paused_step [OF Cons.prems(1) c]
  from Cons.IH [OF conjunct1 [OF st] cs] st show ?case by simp
qed

text \<open>
  With no pass in flight, the paused service does nothing but log: no step is left to
  take.
\<close>

lemma idle_step:
  assumes "isPaused s" "\<not> is_resume c" "\<forall>x \<in> set (passes s). is_over (snd (snd x))"
  shows "\<exists>logs. passes (service_step s c) = passes s \<and>
           local_files (service_step s c) = local_files s \<and>
           trace (service_step s c) = trace s @ logs \<and>
           set logs \<subseteq> {Log Info_pausing, Log Info_paused_not_starting}"
proof (cases c)
  case (CallStartSync env interval)
  then show ?thesis using assms(1) by (simp add: service_step_def startSync_paused)
next
  case (TimerFires env)
  then show ?thesis using timer_paused [OF assms(1)] by simp
next
  case CallStop
  then show ?thesis
    by (cases "syncInterval s") (simp_all add: service_step_def stop_def)
next
  case CallPause
  then show ?thesis
    by (cases "syncInterval s") (simp_all add: service_step_def pause_def stop_def say_def)
next
  case (CallResume env)
  then show ?thesis using assms(2) by simp
next
  case (Advance k)
  show ?thesis
  proof (cases "k < length (passes s)")
    case False
    then show ?thesis using Advance by (simp add: service_step_def advance_def)
  next
    case True
    obtain who env p where x: "passes s ! k = (who, env, p)" by (cases "passes s ! k") auto
    have "is_over p" using assms(3) True x nth_mem [OF True] by fastforce
    then have "pass_step env p (local_files s) = None" by (rule pass_over_no_step)
    then show ?thesis using Advance True x by (simp add: service_step_def advance_def)
  qed
qed

lemma idle_run:
  "isPaused s \<Longrightarrow> \<forall>c \<in> set cs. \<not> is_resume c \<Longrightarrow>
   \<forall>x \<in> set (passes s). is_over (snd (snd x)) \<Longrightarrow>
   \<exists>logs. local_files (run_service cs s) = local_files s \<and>
      trace (run_service cs s) = trace s @ logs \<and>
      set logs \<subseteq> {Log Info_pausing, Log Info_paused_not_starting}"
proof (induction cs arbitrary: s)
  case Nil
  then show ?case by simp
next
  case (Cons c cs)
  from Cons.prems have c: "\<not> is_resume c" and cs: "\<forall>c \<in> set cs. \<not> is_resume c" by simp_all
  let ?s1 = "service_step s c"
  from idle_step [OF Cons.prems(1) c Cons.prems(3)] obtain logs1
    where s1: "passes ?s1 = passes s" "local_files ?s1 = local_files s"
      "trace ?s1 = trace s @ logs1"
      "set logs1 \<subseteq> {Log Info_pausing, Log Info_paused_not_starting}"
    by blast
  have p1: "isPaused ?s1" using paused_step [OF Cons.prems(1) c] by simp
  have o1: "\<forall>x \<in> set (passes ?s1). is_over (snd (snd x))" using Cons.prems(3) s1(1) by simp
  from Cons.IH [OF p1 cs o1] obtain logs2
    where s2: "local_files (run_service cs ?s1) = local_files ?s1"
      "trace (run_service cs ?s1) = trace ?s1 @ logs2"
      "set logs2 \<subseteq> {Log Info_pausing, Log Info_paused_not_starting}"
    by blast
  have "trace (run_service (c # cs) s) = trace s @ (logs1 @ logs2)" using s1(3) s2(2) by simp
  moreover have "set (logs1 @ logs2) \<subseteq> {Log Info_pausing, Log Info_paused_not_starting}"
    using s1(4) s2(3) by simp
  moreover have "local_files (run_service (c # cs) s) = local_files s" using s1(2) s2(1) by simp
  ultimately show ?case by blast
qed

lemma syncFiles_starts_with_listing:
  assumes "syncFiles env local = Some (r, l, t)"
  shows "\<exists>t'. t = ListFiles # t'"
proof -
  have x: "\<exists>t'. t0 = ListFiles # t'" if "sync_attempt env k local = Some (q, l0, t0)" for k q l0 t0
  proof (cases q)
    case (Inl e)
    then show ?thesis using sync_attempt_throws [of env k local e l0 t0] that by auto
  next
    case (Inr files)
    then show ?thesis using sync_attempt_returns [of env k local files l0 t0] that by auto
  qed
  from assms show ?thesis
  proof (cases rule: syncFiles_cases)
    case (first files)
    then show ?thesis using x by blast
  next
    case (second e0 t0 files t')
    then show ?thesis using x [OF second(1)] by auto
  next
    case (third e0 t0 e1 t1 files t')
    then show ?thesis using x [OF third(1)] by auto
  next
    case (exhausted e0 t0 e1 t1 e2 t2)
    then show ?thesis using x [OF exhausted(1)] by auto
  qed
qed

text \<open>
  The pass \<open>resume\<close> starts, when nothing else happens until it is over, is \<open>syncFiles\<close> as
  a whole.
\<close>

lemma resume_runs_sync:
  assumes "syncFiles env (local_files s) = Some (r, l, t)"
  shows "\<exists>n. run_service (replicate n (Advance (length (passes s)))) (resume env s) =
     s\<lparr>syncInterval := Some (sync_interval env), isPaused := False, local_files := l,
       trace := trace s @ Log Info_resuming # t,
       passes := passes s @ [(ByStartSync, env, outcome r)]\<rparr>"
proof -
  let ?s1 = "resume env s"
  note rs = resume_starts_pass [of env s]
  have run: "pass_run env (AwaitList 0) (local_files s) t (outcome r) l"
    using syncFiles_steps [OF assms] by (simp add: enter_loop_def MAX_RETRIES_def)
  have ne: "r \<noteq> Inr None" using syncFiles_general [OF assms] by simp
  have over: "is_over (outcome r)"
    by (cases r) (simp_all add: outcome_def)
  have k: "length (passes s) < length (passes ?s1)" by (simp add: rs)
  have p: "passes ?s1 ! length (passes s) = (ByStartSync, env, AwaitList 0)" by (simp add: rs)
  have f: "local_files ?s1 = local_files s" by (simp add: rs)
  from advance_run [OF run k p f _ over] obtain n
    where "run_service (replicate n (Advance (length (passes s)))) ?s1 =
       ?s1\<lparr>local_files := l, trace := trace ?s1 @ t @ caught ByStartSync (outcome r),
           passes := (passes ?s1)[length (passes s) := (ByStartSync, env, outcome r)]\<rparr>"
    by auto
  moreover have "caught ByStartSync (outcome r) = []"
    by (simp add: caught_def split: pass.splits)
  ultimately have "run_service (replicate n (Advance (length (passes s)))) ?s1 =
     s\<lparr>syncInterval := Some (sync_interval env), isPaused := False, local_files := l,
       trace := trace s @ Log Info_resuming # t,
       passes := passes s @ [(ByStartSync, env, outcome r)]\<rparr>"
    by (simp add: rs)
  then show ?thesis by blast
qed

text \<open>
  So is the pass the timer starts: with nothing in between, the callback and the steps
  of its pass do what \<open>interval_callback\<close> does.
\<close>

lemma timer_runs_sync:
  assumes "syncInterval s = Some i" "interval_callback env s = Some s'"
    "\<not> isPaused s"
  shows "\<exists>n r. run_service (TimerFires env # replicate n (Advance (length (passes s)))) s =
     s'\<lparr>passes := passes s @ [(ByTimer, env, outcome r)]\<rparr>"
proof -
  from assms(2,3) obtain r l t where sf: "syncFiles env (local_files s) = Some (r, l, t)"
    by (auto simp: interval_callback_def split: option.splits)
  let ?s1 = "service_step s (TimerFires env)"
  have s1: "?s1 = s\<lparr>passes := passes s @ [(ByTimer, env, AwaitList 0)]\<rparr>"
    using assms(1,3)
    by (simp add: service_step_def timer_callback_def begin_pass_def enter_loop_def
          MAX_RETRIES_def)
  have run: "pass_run env (AwaitList 0) (local_files s) t (outcome r) l"
    using syncFiles_steps [OF sf] by (simp add: enter_loop_def MAX_RETRIES_def)
  have over: "is_over (outcome r)"
    by (cases r) (simp_all add: outcome_def)
  have k: "length (passes s) < length (passes ?s1)" by (simp add: s1)
  have p: "passes ?s1 ! length (passes s) = (ByTimer, env, AwaitList 0)" by (simp add: s1)
  have f: "local_files ?s1 = local_files s" by (simp add: s1)
  from advance_run [OF run k p f _ over] obtain n
    where n: "run_service (replicate n (Advance (length (passes s)))) ?s1 =
       ?s1\<lparr>local_files := l, trace := trace ?s1 @ t @ caught ByTimer (outcome r),
           passes := (passes ?s1)[length (passes s) := (ByTimer, env, outcome r)]\<rparr>"
    by auto
  have s': "s' = s\<lparr>local_files := l, trace := trace s @ t @ caught ByTimer (outcome r)\<rparr>"
    using assms(2,3) sf
    by (cases r) (simp_all add: interval_callback_def say_def caught_def outcome_def)
  have "run_service (TimerFires env # replicate n (Advance (length (passes s)))) s =
     s'\<lparr>passes := passes s @ [(ByTimer, env, outcome r)]\<rparr>"
    using n by (simp add: s1 s')
  then show ?thesis by blast
qed

lemma pause_keeps_passes_going:
  "local_files (service_step (pause s) (Advance k)) = local_files (service_step s (Advance k)) \<and>
   passes (service_step (pause s) (Advance k)) = passes (service_step s (Advance k))"
  by (cases "syncInterval s")
     (auto simp: service_step_def advance_def pause_def stop_def say_def
        split: prod.splits option.splits)

text \<open>
  Claim C7, as amended. After \<open>pause\<close> the service is paused and has no timer. Whatever
  happens afterwards short of \<open>resume\<close>, be it \<open>startSync\<close>, \<open>stop\<close>, \<open>pause\<close>, the firing
  of the timer or a step of a pass, the service stays paused and no pass is started:
  the callback of the timer and \<open>startSync\<close> return at once. A pass in flight is not
  held up: its steps do to the file system and to the pass what they do without the
  pause. When no pass is in flight the file system stays as it was and the trace gains
  nothing but the log lines of pausing and of the refused start. \<open>resume\<close> clears the
  flag, installs the timer with the configured period and starts a pass at once,
  which, left alone, is \<open>syncFiles\<close> as a whole and begins with a listing.
\<close>

theorem pause_starts_no_pass:
  "isPaused (pause s) \<and> syncInterval (pause s) = None \<and>
   ((\<forall>c \<in> set cs. \<not> is_resume c) \<longrightarrow>
      isPaused (run_service cs (pause s)) \<and>
      length (passes (run_service cs (pause s))) = length (passes s) \<and>
      ((\<forall>x \<in> set (passes s). is_over (snd (snd x))) \<longrightarrow>
         local_files (run_service cs (pause s)) = local_files s \<and>
         (\<exists>logs. trace (run_service cs (pause s)) = trace s @ Log Info_pausing # logs \<and>
            set logs \<subseteq> {Log Info_pausing, Log Info_paused_not_starting}))) \<and>
   (isPaused s \<longrightarrow>
      service_step s (TimerFires env) = s \<and>
      startSync env interval s =
        s\<lparr>syncInterval := None, trace := trace s @ [Log Info_paused_not_starting]\<rparr>) \<and>
   local_files (service_step (pause s) (Advance k)) = local_files (service_step s (Advance k)) \<and>
   passes (service_step (pause s) (Advance k)) = passes (service_step s (Advance k)) \<and>
   resume env s =
     s\<lparr>syncInterval := Some (sync_interval env), isPaused := False,
       trace := trace s @ [Log Info_resuming],
       passes := passes s @ [(ByStartSync, env, AwaitList 0)]\<rparr> \<and>
   (syncFiles env (local_files s) = Some (r, l, t) \<longrightarrow>
      (\<exists>n. run_service (replicate n (Advance (length (passes s)))) (resume env s) =
         s\<lparr>syncInterval := Some (sync_interval env), isPaused := False, local_files := l,
           trace := trace s @ Log Info_resuming # t,
           passes := passes s @ [(ByStartSync, env, outcome r)]\<rparr>) \<and>
      (\<exists>t'. t = ListFiles # t'))"
proof (intro conjI impI)
  show "isPaused (pause s)" "syncInterval (pause s) = None" by (rule pause_state)+
next
  assume n: "\<forall>c \<in> set cs. \<not> is_resume c"
  from paused_run [OF pause_state(1) n, of s]
  show "isPaused (run_service cs (pause s))"
    "length (passes (run_service cs (pause s))) = length (passes s)"
    by (simp_all add: pause_state)
  assume o: "\<forall>x \<in> set (passes s). is_over (snd (snd x))"
  then have o': "\<forall>x \<in> set (passes (pause s)). is_over (snd (snd x))" by (simp add: pause_state)
  from idle_run [OF pause_state(1) n o'] obtain logs
    where "local_files (run_service cs (pause s)) = local_files (pause s)"
      "trace (run_service cs (pause s)) = trace (pause s) @ logs"
      "set logs \<subseteq> {Log Info_pausing, Log Info_paused_not_starting}"
    by blast
  then show "local_files (run_service cs (pause s)) = local_files s"
    "\<exists>logs. trace (run_service cs (pause s)) = trace s @ Log Info_pausing # logs \<and>
            set logs \<subseteq> {Log Info_pausing, Log Info_paused_not_starting}"
    by (simp_all add: pause_state)
next
  assume p: "isPaused s"
  show "service_step s (TimerFires env) = s" by (rule timer_paused [OF p])
  show "startSync env interval s =
        s\<lparr>syncInterval := None, trace := trace s @ [Log Info_paused_not_starting]\<rparr>"
    by (rule startSync_paused [OF p])
next
  show "local_files (service_step (pause s) (Advance k)) =
          local_files (service_step s (Advance k))"
    "passes (service_step (pause s) (Advance k)) = passes (service_step s (Advance k))"
    using pause_keeps_passes_going [of s k] by simp_all
next
  show "resume env s =
     s\<lparr>syncInterval := Some (sync_interval env), isPaused := False,
       trace := trace s @ [Log Info_resuming],
       passes := passes s @ [(ByStartSync, env, AwaitList 0)]\<rparr>"
    by (rule resume_starts_pass)
next
  assume sf: "syncFiles env (local_files s) = Some (r, l, t)"
  show "\<exists>n. run_service (replicate n (Advance (length (passes s)))) (resume env s) =
         s\<lparr>syncInterval := Some (sync_interval env), isPaused := False, local_files := l,
           trace := trace s @ Log Info_resuming # t,
           passes := passes s @ [(ByStartSync, env, outcome r)]\<rparr>"
    by (rule resume_runs_sync [OF sf])
  show "\<exists>t'. t = ListFiles # t'" by (rule syncFiles_starts_with_listing [OF sf])
qed

lemmas service_simps =
  service_step_def startSync_def resume_def timer_callback_def begin_pass_def advance_def
  stop_def pause_def say_def caught_def enter_loop_def MAX_RETRIES_def catch_error_def
  next_download_def next_removal_def example_service_def retrying_env_def

theorem pause_starts_no_pass_witness:
  "run_service
     [TimerFires example_env, CallStartSync example_env 5000, Advance 0, CallStop, CallPause,
      TimerFires example_env]
     (pause (example_service\<lparr>passes := [(ByTimer, example_env, Returned (Some [file_a]))]\<rparr>)) =
   \<lparr>syncInterval = None, isPaused = True, local_files = mirror_of [''a.jpg'', ''c.jpg''],
     trace = [Log Info_pausing, Log Info_paused_not_starting, Log Info_pausing],
     passes = [(ByTimer, example_env, Returned (Some [file_a]))]\<rparr> \<and>
   service_step (example_service\<lparr>isPaused := True\<rparr>) (TimerFires example_env) =
     example_service\<lparr>isPaused := True\<rparr> \<and>
   (\<exists>n. run_service (replicate n (Advance 0)) (resume example_env (pause example_service)) =
     \<lparr>syncInterval = Some 60000, isPaused = False,
       local_files = mirror_of [''a.jpg'', ''b.mp4''],
       trace = [Log Info_pausing, Log Info_resuming, ListFiles, Log (Info_found 2), Readdir,
                Download ''2'' ''b.mp4'', Log (Info_downloaded ''b.mp4''),
                Remove ''c.jpg'', Log (Info_removed ''c.jpg'')],
       passes = [(ByStartSync, example_env, Returned (Some [file_a, file_b]))]\<rparr>)"
proof -
  let ?cs = "[TimerFires example_env, CallStartSync example_env 5000, Advance 0, CallStop,
      CallPause, TimerFires example_env]"
  let ?s = "example_service\<lparr>passes := [(ByTimer, example_env, Returned (Some [file_a]))]\<rparr>"
  have n: "\<forall>c \<in> set ?cs. \<not> is_resume c" by simp
  have o: "\<forall>x \<in> set (passes ?s). is_over (snd (snd x))" by simp
  have p: "isPaused (example_service\<lparr>isPaused := True\<rparr>)" by simp
  have ps: "pause example_service =
      \<lparr>syncInterval = None, isPaused = True, local_files = mirror_of [''a.jpg'', ''c.jpg''],
       trace = [Log Info_pausing], passes = []\<rparr>"
    by (simp add: pause_def stop_def say_def example_service_def)
  have a: "sync_attempt example_env 0 (mirror_of [''a.jpg'', ''c.jpg'']) =
     Some (Inr [file_a, file_b], mirror_of [''a.jpg'', ''b.mp4''],
       [ListFiles, Log (Info_found 2), Readdir,
        Download ''2'' ''b.mp4'', Log (Info_downloaded ''b.mp4''),
        Remove ''c.jpg'', Log (Info_removed ''c.jpg'')])"
    by (simp add: example_simps)
  have i: "sync_interval example_env = 60000" by (simp add: example_env_def)
  from pause_starts_no_pass [where s = ?s and cs = ?cs] n o
  have "isPaused (run_service ?cs (pause ?s))"
    "local_files (run_service ?cs (pause ?s)) = local_files ?s"
    by blast+
  moreover have "run_service ?cs (pause ?s) =
     \<lparr>syncInterval = None, isPaused = True, local_files = mirror_of [''a.jpg'', ''c.jpg''],
       trace = [Log Info_pausing, Log Info_paused_not_starting, Log Info_pausing],
       passes = [(ByTimer, example_env, Returned (Some [file_a]))]\<rparr>"
    by (simp add: service_simps)
  moreover from pause_starts_no_pass
      [where s = "example_service\<lparr>isPaused := True\<rparr>" and env = example_env] p
  have "service_step (example_service\<lparr>isPaused := True\<rparr>) (TimerFires example_env) =
     example_service\<lparr>isPaused := True\<rparr>"
    by blast
  moreover have "\<exists>n. run_service (replicate n (Advance 0))
        (resume example_env (pause example_service)) =
     \<lparr>syncInterval = Some 60000, isPaused = False,
       local_files = mirror_of [''a.jpg'', ''b.mp4''],
       trace = [Log Info_pausing, Log Info_resuming, ListFiles, Log (Info_found 2), Readdir,
                Download ''2'' ''b.mp4'', Log (Info_downloaded ''b.mp4''),
                Remove ''c.jpg'', Log (Info_removed ''c.jpg'')],
       passes = [(ByStartSync, example_env, Returned (Some [file_a, file_b]))]\<rparr>"
  proof -
    have sf: "syncFiles example_env (local_files (pause example_service)) =
        Some (Inr (Some [file_a, file_b]), mirror_of [''a.jpg'', ''b.mp4''],
          [ListFiles, Log (Info_found 2), Readdir,
           Download ''2'' ''b.mp4'', Log (Info_downloaded ''b.mp4''),
           Remove ''c.jpg'', Log (Info_removed ''c.jpg'')])"
      using syncFiles_first [OF a] by (simp add: ps)
    note last = pause_starts_no_pass [where s = "pause example_service" and env = example_env,
        THEN conjunct2, THEN conjunct2, THEN conjunct2, THEN conjunct2, THEN conjunct2,
        THEN conjunct2, THEN conjunct2, rule_format, OF sf, THEN conjunct1]
    then show ?thesis by (simp add: ps i outcome_def)
  qed
  ultimately show ?thesis by blast
qed

text \<open>
  A pass in flight goes on after \<open>pause\<close>. The first attempt of the pass \<open>startSync\<close> has
  started fails and the pass waits for its retry. Then \<open>pause\<close> is called. The
  timeout of the retry is not cleared: the second attempt lists the drive, downloads
  \<open>b.mp4\<close> and removes \<open>c.jpg\<close>, all while the service is paused.
\<close>

theorem pause_during_pass_counterexample:
  "run_service
     [CallStartSync retrying_env 60000, Advance 0, CallPause,
      Advance 0, Advance 0, Advance 0, Advance 0, Advance 0, Advance 0, Advance 0, Advance 0]
     (example_service\<lparr>syncInterval := None\<rparr>) =
   \<lparr>syncInterval = None, isPaused = True, local_files = mirror_of [''a.jpg'', ''b.mp4''],
     trace = [ListFiles, Log (Warn_attempt_failed 1), Wait 1000, Log Info_pausing,
              ListFiles, Log (Info_found 2), Readdir,
              Download ''2'' ''b.mp4'', Log (Info_downloaded ''b.mp4''),
              Remove ''c.jpg'', Log (Info_removed ''c.jpg'')],
     passes = [(ByStartSync, retrying_env, Returned (Some [file_a, file_b]))]\<rparr>"
  by (simp add: service_simps example_simps)

end
